theory Spec2Isabelle
  imports Main "HOL-Library.Sublist" "HOL-Library.AList"
begin

section \<open>Strings and paths\<close>

text \<open>
  The program is \<^verbatim>\<open>sort_pictures.py\<close>. Paths are Python \<^verbatim>\<open>str\<close> values, modelled
  as \<^typ>\<open>string\<close>. The functions of \<^verbatim>\<open>os.path\<close> (POSIX flavour) and of \<^verbatim>\<open>str\<close> that
  the program calls are written out here.
\<close>

type_synonym path = string

text \<open>\<^verbatim>\<open>os.path.basename(p)\<close>: everything after the last slash.\<close>

definition basename :: "path \<Rightarrow> path" where
  "basename p = rev (takeWhile (\<lambda>c. c \<noteq> CHR ''/'') (rev p))"

text \<open>
  \<^verbatim>\<open>os.path.dirname(p)\<close>: everything up to the last slash, with the trailing slashes
  stripped unless the head consists of slashes only.
\<close>

definition dirname :: "path \<Rightarrow> path" where
  "dirname p =
     (let head = rev (dropWhile (\<lambda>c. c \<noteq> CHR ''/'') (rev p))
      in if head \<noteq> [] \<and> \<not> list_all (\<lambda>c. c = CHR ''/'') head
         then rev (dropWhile (\<lambda>c. c = CHR ''/'') (rev head))
         else head)"

text \<open>\<^verbatim>\<open>os.path.join(a, b)\<close> with two arguments.\<close>

definition join :: "path \<Rightarrow> path \<Rightarrow> path" where
  "join a b =
     (if b \<noteq> [] \<and> hd b = CHR ''/'' then b
      else if a = [] \<or> last a = CHR ''/'' then a @ b
      else a @ ''/'' @ b)"

text \<open>\<^verbatim>\<open>s.split(c)\<close> for a separator of one character.\<close>

fun split_on :: "char \<Rightarrow> string \<Rightarrow> string list" where
  "split_on c [] = [[]]"
| "split_on c (x # xs) =
     (if x = c then [] # split_on c xs
      else (let r = split_on c xs in (x # hd r) # tl r))"

text \<open>
  \<^verbatim>\<open>s.replace(old, new)\<close>: every non-overlapping occurrence, from the left. The program
  calls it with a fixed non-empty \<^verbatim>\<open>old\<close>; for the empty pattern (which Python treats
  specially) this function returns the string unchanged.
\<close>

fun str_replace :: "string \<Rightarrow> string \<Rightarrow> string \<Rightarrow> string" where
  "str_replace old new [] = []"
| "str_replace old new (c # cs) =
     (if old \<noteq> [] \<and> prefix old (c # cs)
      then new @ str_replace old new (drop (length old - 1) cs)
      else c # str_replace old new cs)"

text \<open>\<^verbatim>\<open>a in b\<close> on strings is the contiguous-substring test, \<^const>\<open>sublist\<close>.\<close>

text \<open>\<^verbatim>\<open>str(n)\<close> for a non-negative integer, and the zero-padded \<^verbatim>\<open>%02d\<close>.\<close>

definition digit_char :: "nat \<Rightarrow> char" where
  "digit_char d = char_of (48 + d)"

fun show_nat :: "nat \<Rightarrow> string" where
  "show_nat n = (if n < 10 then [digit_char n] else show_nat (n div 10) @ [digit_char (n mod 10)])"

declare show_nat.simps [simp del]

definition pad2 :: "nat \<Rightarrow> string" where
  "pad2 n = (if n < 10 then CHR ''0'' # show_nat n else show_nat n)"

section \<open>Timestamps and target names\<close>

text \<open>
  A \<^verbatim>\<open>datetime.datetime\<close>, timezone-naive, at the resolution of one second. Python's
  type only holds valid calendar values; \<open>valid_datetime\<close> states the ranges.
\<close>

record datetime =
  year :: nat
  month :: nat
  day :: nat
  hour :: nat
  minute :: nat
  second :: nat

definition valid_datetime :: "datetime \<Rightarrow> bool" where
  "valid_datetime t \<longleftrightarrow>
     1 \<le> year t \<and> year t \<le> 9999 \<and> 1 \<le> month t \<and> month t \<le> 12 \<and>
     1 \<le> day t \<and> day t \<le> 31 \<and> hour t < 24 \<and> minute t < 60 \<and> second t < 60"

definition month_names :: "string list" where
  "month_names = [''January'', ''February'', ''March'', ''April'', ''May'', ''June'',
     ''July'', ''August'', ''September'', ''October'', ''November'', ''December'']"

text \<open>\<^verbatim>\<open>%B\<close>, the full month name (English names, as in the C locale).\<close>

definition month_name :: "nat \<Rightarrow> string" where
  "month_name m = (if 1 \<le> m \<and> m \<le> 12 then month_names ! (m - 1) else [])"

text \<open>
  \<^verbatim>\<open>timestamp.strftime('%m_%d_%H_%M_%S__%-dth_of_%B_at_%Hh_%Mm')\<close>; \<^verbatim>\<open>%-d\<close> is the
  day of the month without padding.
\<close>

definition strftime_name :: "datetime \<Rightarrow> string" where
  "strftime_name t =
     pad2 (month t) @ ''_'' @ pad2 (day t) @ ''_'' @ pad2 (hour t) @ ''_'' @
     pad2 (minute t) @ ''_'' @ pad2 (second t) @ ''__'' @ show_nat (day t) @ ''th_of_'' @
     month_name (month t) @ ''_at_'' @ pad2 (hour t) @ ''h_'' @ pad2 (minute t) @ ''m''"

section \<open>Python dictionaries\<close>

text \<open>
  A \<^verbatim>\<open>dict\<close> keeps its keys in insertion order: an association list with distinct keys.
  \<^verbatim>\<open>d[k] = v\<close> is \<^const>\<open>AList.update\<close> (an existing key keeps its place, a new one goes
  to the end), \<^verbatim>\<open>del d[k]\<close> is \<^const>\<open>AList.delete\<close>, \<^verbatim>\<open>d[k]\<close> is \<^const>\<open>map_of\<close>.
\<close>

type_synonym 'v dict = "(string \<times> 'v) list"

definition keys :: "'v dict \<Rightarrow> string list" where
  "keys d = map fst d"

text \<open>\<^verbatim>\<open>d.update(e)\<close>.\<close>

definition dict_update :: "'v dict \<Rightarrow> 'v dict \<Rightarrow> 'v dict" where
  "dict_update d e = fold (\<lambda>(k, v). AList.update k v) e d"

section \<open>Errors and messages\<close>

datatype error =
    TargetAlreadyExists path path
  | MoreThanOneFile path
  | UnpackError path
  | FileNotFound path
  | FileExists path
  | IsADirectory path
  | JSONDecodeError path
  | KeyError path
  | TypeError
  | Suspicious datetime
  | SourceNotDirectory path

datatype message =
    Different path path
  | Moving
  | Deleted nat
  | WouldHaveDeleted nat
  | Planned path path
  | StillExists path
  | DeletedDirs nat
  | Found nat nat

section \<open>The plan builder\<close>

text \<open>The target name of one record, lines 31 to 34 of \<^verbatim>\<open>create_moves\<close>.\<close>

definition file_ext :: "path \<Rightarrow> string" where
  "file_ext p = last (split_on CHR ''.'' (basename p))"

definition new_name :: "path \<Rightarrow> datetime \<times> path \<Rightarrow> path" where
  "new_name out rec =
     (let directory = join out (show_nat (year (fst rec)));
          filename = strftime_name (fst rec) @ ''.'' @ file_ext (snd rec)
      in join directory filename)"

text \<open>The first loop: group the source paths by target name.\<close>

definition add_to_mapping :: "path \<Rightarrow> datetime \<times> path \<Rightarrow> path list dict \<Rightarrow> path list dict" where
  "add_to_mapping out rec mapping =
     (let n = new_name out rec
      in case map_of mapping n of
           Some files \<Rightarrow> AList.update n (files @ [snd rec]) mapping
         | None \<Rightarrow> AList.update n [snd rec] mapping)"

definition build_mapping :: "path \<Rightarrow> (datetime \<times> path) list \<Rightarrow> path list dict" where
  "build_mapping out pictures = fold (add_to_mapping out) pictures []"

text \<open>
  The second loop. A group of one file keeps the name; in a larger group the name is
  split at its dots, which raises unless there are exactly two parts, and file number
  \<open>i\<close> (from 0) gets the suffix \<open>_(i+1)\<close>.
\<close>

fun number_files :: "path \<Rightarrow> nat \<Rightarrow> path list \<Rightarrow> path dict \<Rightarrow> error + path dict" where
  "number_files n i [] moves = Inr moves"
| "number_files n i (file # files) moves =
     (case split_on CHR ''.'' n of
        [dir_and_filename, ext] \<Rightarrow>
          number_files n (i + 1) files
            (AList.update (dir_and_filename @ ''_'' @ show_nat (i + 1) @ ''.'' @ ext) file moves)
      | _ \<Rightarrow> Inl (UnpackError n))"

fun assign_moves :: "path list dict \<Rightarrow> path dict \<Rightarrow> error + path dict" where
  "assign_moves [] moves = Inr moves"
| "assign_moves ((n, files) # rest) moves =
     (if length files = 1 then assign_moves rest (AList.update n (files ! 0) moves)
      else case number_files n 0 files moves of
             Inl e \<Rightarrow> Inl e
           | Inr moves' \<Rightarrow> assign_moves rest moves')"

definition create_moves :: "(datetime \<times> path) list \<Rightarrow> path \<Rightarrow> error + path dict" where
  "create_moves pictures out = assign_moves (build_mapping out pictures) []"

section \<open>The file system\<close>

text \<open>
  The file system is a finite map from locations to nodes, kept as a list of the locations
  in use. A location is an absolute path. A path names the location that the operating
  system resolves it to: itself when it is absolute, and the path below the working
  directory otherwise, as \<^verbatim>\<open>os.path.abspath\<close> does before it normalises (\<^verbatim>\<open>.\<close>, \<^verbatim>\<open>..\<close>,
  doubled slashes and links are not resolved). Two paths that name one location name one
  file: what is written or removed under one name is written or removed under the other.

  A regular file holds either opaque bytes (a picture, a video) or a ledger document: the
  JSON object of \<^verbatim>\<open>info.json\<close>, kept as the list of its key/value pairs in file order.
  The namespace is flat: the operations below create and test single entries, and
  failures of the operating system other than a missing or an already present entry
  (permissions, full disks) are not part of the model. Text printed on the terminal is
  collected in \<open>stdout\<close>; the progress bars of \<^verbatim>\<open>rich\<close> are left out.
\<close>

datatype content = Bytes "nat list" | LedgerDoc "(path \<times> path) list"

datatype node = Directory | File content

type_synonym filesystem = "path \<rightharpoonup> node"

record world =
  cwd :: path
  store :: "(path \<times> node) list"
  stdout :: "message list"

definition resolve :: "world \<Rightarrow> path \<Rightarrow> path" where
  "resolve w p = join (cwd w) p"

text \<open>The file system as the program sees it: the node that a path names, if any.\<close>

definition files :: "world \<Rightarrow> filesystem" where
  "files w p = map_of (store w) (resolve w p)"

definition print :: "message \<Rightarrow> world \<Rightarrow> world" where
  "print m w = w\<lparr>stdout := stdout w @ [m]\<rparr>"

text \<open>Creating or replacing the node that a path names, and \<^verbatim>\<open>os.remove\<close>.\<close>

definition write_node :: "path \<Rightarrow> node \<Rightarrow> world \<Rightarrow> world" where
  "write_node p nd w = w\<lparr>store := AList.update (resolve w p) nd (store w)\<rparr>"

definition os_remove :: "path \<Rightarrow> world \<Rightarrow> world" where
  "os_remove p w = w\<lparr>store := AList.delete (resolve w p) (store w)\<rparr>"

text \<open>
  \<^verbatim>\<open>filecmp.cmp(f1, f2, shallow=False)\<close>: both paths are \<^verbatim>\<open>stat\<close>ed (a missing one
  raises), anything that is not a regular file compares unequal, and two regular files
  are equal when their contents are, byte for byte.
\<close>

definition filecmp :: "filesystem \<Rightarrow> path \<Rightarrow> path \<Rightarrow> error + bool" where
  "filecmp fs f1 f2 =
     (case fs f1 of
        None \<Rightarrow> Inl (FileNotFound f1)
      | Some n1 \<Rightarrow>
          (case fs f2 of
             None \<Rightarrow> Inl (FileNotFound f2)
           | Some n2 \<Rightarrow>
               Inr (case (n1, n2) of (File c1, File c2) \<Rightarrow> c1 = c2 | _ \<Rightarrow> False)))"

text \<open>\<^verbatim>\<open>os.makedirs(d)\<close> and \<^verbatim>\<open>os.makedirs(d, exist_ok=True)\<close>.\<close>

definition makedirs :: "path \<Rightarrow> world \<Rightarrow> error + world" where
  "makedirs d w =
     (if d = [] then Inl (FileNotFound d)
      else case files w d of
             Some _ \<Rightarrow> Inl (FileExists d)
           | None \<Rightarrow> Inr (write_node d Directory w))"

definition makedirs_exist_ok :: "path \<Rightarrow> world \<Rightarrow> error + world" where
  "makedirs_exist_ok d w =
     (if d = [] then Inl (FileNotFound d)
      else case files w d of
             Some (File _) \<Rightarrow> Inl (FileExists d)
           | Some Directory \<Rightarrow> Inr w
           | None \<Rightarrow> Inr (write_node d Directory w))"

text \<open>
  Reading \<^verbatim>\<open>info.json\<close> (lines 55 to 58 and 80 to 83): the empty dictionary when the
  path does not exist, otherwise \<^verbatim>\<open>json.load\<close>, which builds the dictionary pair by
  pair (a repeated key keeps its first place and takes its last value). A regular file
  that does not hold a JSON object of strings is a \<open>Bytes\<close> node here, and reading
  it raises.
\<close>

definition load_info :: "filesystem \<Rightarrow> path \<Rightarrow> error + path dict" where
  "load_info fs json_file =
     (case fs json_file of
        None \<Rightarrow> Inr []
      | Some Directory \<Rightarrow> Inl (IsADirectory json_file)
      | Some (File (Bytes b)) \<Rightarrow> Inl (JSONDecodeError json_file)
      | Some (File (LedgerDoc l)) \<Rightarrow> Inr (dict_update [] l))"

section \<open>The migration executor\<close>

text \<open>
  \<^verbatim>\<open>sort_file_in(outfile, infile)\<close>. When the function reaches \<^verbatim>\<open>shutil.move\<close> the
  target does not exist, so the call is a rename: the node that \<open>infile\<close> names goes to
  \<open>outfile\<close>, and a missing \<open>infile\<close> raises.
\<close>

definition sort_file_in :: "path \<Rightarrow> path \<Rightarrow> world \<Rightarrow> world \<times> error option" where
  "sort_file_in outfile infile w =
     (let dir = dirname outfile
      in case (if files w dir = None then makedirs dir w else Inr w) of
           Inl e \<Rightarrow> (w, Some e)
         | Inr w1 \<Rightarrow>
             if files w1 outfile \<noteq> None
             then (w1, Some (TargetAlreadyExists infile outfile))
             else (case files w1 infile of
                     None \<Rightarrow> (w1, Some (FileNotFound infile))
                   | Some n \<Rightarrow> (os_remove infile (write_node outfile n w1), None)))"

text \<open>The loop of lines 107 and 108: the first exception ends it.\<close>

fun move_files :: "path dict \<Rightarrow> world \<Rightarrow> world \<times> error option" where
  "move_files [] w = (w, None)"
| "move_files ((new_file, old_file) # rest) w =
     (case sort_file_in new_file old_file w of
        (w', Some e) \<Rightarrow> (w', Some e)
      | (w', None) \<Rightarrow> move_files rest w')"

section \<open>The ledger\<close>

text \<open>
  The body of the loop of \<^verbatim>\<open>check_update_old_info\<close> for one key \<open>k\<close> of the old
  dictionary. The loop state is the dictionary \<open>moves\<close>, the counter and the world.
\<close>

type_synonym check_state = "path dict \<times> nat \<times> world"

definition existing_location :: "path \<Rightarrow> path" where
  "existing_location existing_file = str_replace ''/pictures_sorted/'' ''/pictures/'' existing_file"

definition check_entry :: "bool \<Rightarrow> path \<Rightarrow> check_state \<Rightarrow> error + check_state" where
  "check_entry dry_run k s =
     (case s of (moves, deleted_duplicates, w) \<Rightarrow>
        let old_filename = basename k
        in if old_filename \<in> set (map basename (keys moves))
           then
             (let existing_file = k;
                  incoming_files = filter (\<lambda>new_file. sublist old_filename new_file) (keys moves)
              in if length incoming_files \<noteq> 1 then Inl (MoreThanOneFile k)
                 else case map_of moves (incoming_files ! 0) of
                        None \<Rightarrow> Inl (KeyError (incoming_files ! 0))
                      | Some incoming_file \<Rightarrow>
                          (let moves' = AList.delete (incoming_files ! 0) moves
                           in case filecmp (files w) (existing_location existing_file) incoming_file of
                                Inl e \<Rightarrow> Inl e
                              | Inr same \<Rightarrow>
                                  if \<not> same
                                  then Inr (moves', deleted_duplicates,
                                            print (Different existing_file incoming_file) w)
                                  else if \<not> dry_run
                                  then Inr (moves', deleted_duplicates + 1,
                                            os_remove incoming_file w)
                                  else Inr (moves', deleted_duplicates, w)))
           else Inr s)"

text \<open>
  The loop over the keys of the old dictionary. An exception leaves the world as it was
  when the failing iteration began (the iteration raises before it prints or removes).
\<close>

fun check_loop :: "bool \<Rightarrow> path list \<Rightarrow> check_state \<Rightarrow> world \<times> (error + path dict \<times> nat)" where
  "check_loop dry_run [] s = (snd (snd s), Inr (fst s, fst (snd s)))"
| "check_loop dry_run (k # ks) s =
     (case check_entry dry_run k s of
        Inl e \<Rightarrow> (snd (snd s), Inl e)
      | Inr s' \<Rightarrow> check_loop dry_run ks s')"

definition check_update_old_info ::
    "path dict \<Rightarrow> path \<Rightarrow> bool \<Rightarrow> world \<Rightarrow> world \<times> (error + path dict \<times> nat)" where
  "check_update_old_info moves json_file dry_run w =
     (case load_info (files w) json_file of
        Inl e \<Rightarrow> (w, Inl e)
      | Inr old_info \<Rightarrow> check_loop dry_run (keys old_info) (moves, 0, w))"

text \<open>
  \<^verbatim>\<open>append_moves_to_json\<close>. The statement \<^verbatim>\<open>raise print(...)\<close> prints its message and
  then raises a \<^verbatim>\<open>TypeError\<close>, since \<^verbatim>\<open>print\<close> returns \<^verbatim>\<open>None\<close>.
\<close>

definition append_moves_to_json ::
    "path dict \<Rightarrow> path \<Rightarrow> bool \<Rightarrow> world \<Rightarrow> world \<times> (error + path dict)" where
  "append_moves_to_json moves json_file dry_run w =
     (case load_info (files w) json_file of
        Inl e \<Rightarrow> (w, Inl e)
      | Inr old_info \<Rightarrow>
          (case filter (\<lambda>k. k \<in> set (keys moves)) (keys old_info) of
             k # _ \<Rightarrow> (print (StillExists k) w, Inl TypeError)
           | [] \<Rightarrow>
               (let old_info' = dict_update old_info moves
                in if \<not> dry_run
                   then
                     (case (if files w json_file = None
                            then makedirs_exist_ok (dirname json_file) w
                            else Inr w) of
                        Inl e \<Rightarrow> (w, Inl e)
                      | Inr w1 \<Rightarrow>
                          (case files w1 json_file of
                             Some Directory \<Rightarrow> (w1, Inl (IsADirectory json_file))
                           | _ \<Rightarrow> (write_node json_file (File (LedgerDoc old_info')) w1,
                                   Inr old_info')))
                   else (w, Inr old_info'))))"

section \<open>The two modes\<close>

definition do_move_files :: "(datetime \<times> path) list \<Rightarrow> path \<Rightarrow> world \<Rightarrow> world \<times> error option" where
  "do_move_files pictures out w =
     (let w0 = print Moving w
      in case create_moves pictures out of
           Inl e \<Rightarrow> (w0, Some e)
         | Inr moves \<Rightarrow>
             (case check_update_old_info moves (join out ''info.json'') False w0 of
                (w1, Inl e) \<Rightarrow> (w1, Some e)
              | (w1, Inr (moves', deleted_duplicates)) \<Rightarrow>
                  (case move_files moves' w1 of
                     (w2, Some e) \<Rightarrow> (w2, Some e)
                   | (w2, None) \<Rightarrow>
                       (case append_moves_to_json moves' (join out ''info.json'') False w2 of
                          (w3, Inl e) \<Rightarrow> (w3, Some e)
                        | (w3, Inr _) \<Rightarrow>
                            (if deleted_duplicates > 0
                             then print (Deleted deleted_duplicates) w3
                             else w3, None)))))"

definition dryrun_move_files :: "(datetime \<times> path) list \<Rightarrow> path \<Rightarrow> world \<Rightarrow> world \<times> error option" where
  "dryrun_move_files pictures out w =
     (case create_moves pictures out of
        Inl e \<Rightarrow> (w, Some e)
      | Inr moves \<Rightarrow>
          (case check_update_old_info moves (join out ''info.json'') True w of
             (w1, Inl e) \<Rightarrow> (w1, Some e)
           | (w1, Inr (moves', deleted_duplicates)) \<Rightarrow>
               (let w2 = fold (\<lambda>(new_name, file). print (Planned file new_name)) moves' w1
                in case append_moves_to_json moves' (join out ''info.json'') True w2 of
                     (w3, Inl e) \<Rightarrow> (w3, Some e)
                   | (w3, Inr _) \<Rightarrow>
                       (if deleted_duplicates > 0
                        then print (WouldHaveDeleted deleted_duplicates) w3
                        else w3, None))))"

text \<open>The choice of the mode, lines 234 to 237 of \<^verbatim>\<open>main\<close>.\<close>

definition run_moves ::
    "bool \<Rightarrow> (datetime \<times> path) list \<Rightarrow> path \<Rightarrow> world \<Rightarrow> world \<times> error option" where
  "run_moves apply_mode pictures out w =
     (if apply_mode then do_move_files pictures out w else dryrun_move_files pictures out w)"

section \<open>The discovery\<close>

text \<open>
  \<^verbatim>\<open>find_pictures(source)\<close>. \<^verbatim>\<open>os.walk\<close> reports the regular files at the locations
  below the source directory, each under the name that continues \<open>source\<close> as it was
  given (\<^verbatim>\<open>main\<close> passes an absolute path). The order is that of the store. The two
  ways to get a timestamp, \<^verbatim>\<open>extract_picture_timestamp\<close> for the picture extensions and
  the \<^verbatim>\<open>ffmpeg\<close> probe with its fallback for the video extensions, read data that the
  model does not hold (EXIF tags, container tags, file times); they are parameters that
  give, for a path, the timestamp or the exception raised. The list \<^verbatim>\<open>unmatched\<close> of the
  source holds pairs of an empty dictionary and a path; the model keeps the path.
\<close>

definition allowed_picture_extensions :: "string list" where
  "allowed_picture_extensions = [''.jpg'', ''.JPG'', ''.jpeg'', ''.JPEG'', ''.png'', ''.PNG'',
     ''.gif'', ''.GIF'', ''.NEF'', ''.CR2'', ''.dng'', ''.bmp'']"

definition video_extensions :: "string list" where
  "video_extensions = [''.mp4'', ''.MP4'', ''.mov'', ''.MOV'', ''.avi'', ''.AVI'']"

definition endswith :: "string \<Rightarrow> string \<Rightarrow> bool" where
  "endswith s ext = suffix ext s"

definition lies_below :: "path \<Rightarrow> path \<Rightarrow> bool" where
  "lies_below d l =
     (let d' = (if d \<noteq> [] \<and> last d = CHR ''/'' then d else d @ ''/'')
      in prefix d' l \<and> l \<noteq> d')"

definition is_file :: "node option \<Rightarrow> bool" where
  "is_file n = (case n of Some (File _) \<Rightarrow> True | _ \<Rightarrow> False)"

definition walk_files :: "path \<Rightarrow> world \<Rightarrow> path list" where
  "walk_files source w =
     map (\<lambda>l. source @ drop (length (resolve w source)) l)
       (filter (\<lambda>l. lies_below (resolve w source) l \<and> is_file (map_of (store w) l))
          (map fst (store w)))"

type_synonym found = "(datetime \<times> path) list \<times> path list \<times> (error \<times> path) list"

definition find_step ::
    "(path \<Rightarrow> error + datetime) \<Rightarrow> (path \<Rightarrow> error + datetime) \<Rightarrow> path \<Rightarrow> found \<Rightarrow> found" where
  "find_step picture_time video_time path acc =
     (case acc of (pictures, unmatched, errs) \<Rightarrow>
        let file = basename path
        in if list_ex (endswith file) allowed_picture_extensions
           then (case picture_time path of
                   Inr timestamp \<Rightarrow> (pictures @ [(timestamp, path)], unmatched, errs)
                 | Inl e \<Rightarrow> (pictures, unmatched, errs @ [(e, path)]))
           else if list_ex (endswith file) video_extensions
           then (case video_time path of
                   Inr timestamp \<Rightarrow> (pictures @ [(timestamp, path)], unmatched, errs)
                 | Inl e \<Rightarrow> (pictures, unmatched, errs @ [(e, path)]))
           else (pictures, unmatched @ [path], errs))"

definition find_pictures ::
    "(path \<Rightarrow> error + datetime) \<Rightarrow> (path \<Rightarrow> error + datetime) \<Rightarrow> path \<Rightarrow> world \<Rightarrow>
       world \<times> (error + found)" where
  "find_pictures picture_time video_time source w =
     (if files w source \<noteq> Some Directory then (w, Inl (SourceNotDirectory source))
      else let found = fold (find_step picture_time video_time) (walk_files source w) ([], [], [])
           in (print (Found (length (fst found))
                        (length (fst (snd found)) + length (snd (snd found)))) w,
               Inr found))"

text \<open>
  Lines 232 to 237 of \<^verbatim>\<open>main\<close>: the discovery, and then one of the two modes on the
  records found. An exception of the discovery ends the run.
\<close>

definition main_moves ::
    "bool \<Rightarrow> (path \<Rightarrow> error + datetime) \<Rightarrow> (path \<Rightarrow> error + datetime) \<Rightarrow> path \<Rightarrow> path \<Rightarrow>
       world \<Rightarrow> world \<times> error option" where
  "main_moves apply_mode picture_time video_time source out w =
     (case find_pictures picture_time video_time source w of
        (w0, Inl e) \<Rightarrow> (w0, Some e)
      | (w0, Inr (pictures, unmatched, errs)) \<Rightarrow> run_moves apply_mode pictures out w0)"

text \<open>The output directory that \<^verbatim>\<open>main\<close> takes when none is given, lines 227 to 230.\<close>

definition default_out :: "path \<Rightarrow> path" where
  "default_out source = join (dirname source) ''pictures''"

section \<open>The timestamp fallback\<close>

text \<open>
  \<^verbatim>\<open>extract_timestamp_from_filemeta\<close>. The two times of the file and the conversion
  \<^verbatim>\<open>datetime.fromtimestamp\<close> (which depends on the time zone of the machine) are
  parameters, and so is the value of \<^verbatim>\<open>datetime.now()\<close>, taken as the same in the four
  places where the condition reads it. The condition chains three comparisons:
  \<^verbatim>\<open>a == b == c == d\<close> is \<^verbatim>\<open>a == b and b == c and c == d\<close>.
\<close>

definition extract_timestamp_from_filemeta ::
    "('t::linorder \<Rightarrow> datetime) \<Rightarrow> datetime \<Rightarrow> 't \<Rightarrow> 't \<Rightarrow> error + datetime" where
  "extract_timestamp_from_filemeta fromtimestamp now ctime mtime =
     (let min_time = fromtimestamp (min ctime mtime)
      in if year min_time = year now \<and>
            (month min_time = month now \<and> month now = day min_time \<and> day min_time = day now)
         then Inl (Suspicious min_time)
         else Inr min_time)"

section \<open>The tree cleaner\<close>

text \<open>
  \<^verbatim>\<open>os.walk\<close> presents the directory below \<open>root\<close> as a tree: every directory has
  the names of its files and its subdirectories. With \<^verbatim>\<open>topdown=False\<close> a directory is
  listed before its subdirectories are walked and reported after them, so the reported
  list of subdirectories still names those that the loop has removed in between. The
  root is taken to be a directory (for any other path the walk reports nothing and
  \<^verbatim>\<open>cleanup\<close> returns 0), and \<^verbatim>\<open>os.rmdir\<close> succeeds on a directory that the loop found
  empty.
\<close>

datatype dirtree = Dir (dir_files: "string list") (dir_subdirs: "(string \<times> dirtree) list")

fun walk_bottomup :: "path \<Rightarrow> dirtree \<Rightarrow> (path \<times> string list \<times> string list) list" where
  "walk_bottomup top_dir (Dir fs subs) =
     concat (map (\<lambda>(name, t). walk_bottomup (join top_dir name) t) subs) @
     [(top_dir, map fst subs, fs)]"

text \<open>
  The body of the loop of \<^verbatim>\<open>cleanup\<close>. The state is the list of the \<^verbatim>\<open>os.rmdir\<close> calls
  made so far and the set \<^verbatim>\<open>deleted\<close>. \<^verbatim>\<open>any(files)\<close> is true when some name is a
  non-empty string.
\<close>

definition cleanup_visit ::
    "path \<times> string list \<times> string list \<Rightarrow> path list \<times> path set \<Rightarrow> path list \<times> path set" where
  "cleanup_visit entry s =
     (case entry of (current_dir, subdirs, fs) \<Rightarrow>
        case s of (rmdirs, deleted) \<Rightarrow>
          let still_has_subdirs = list_ex (\<lambda>subdir. join current_dir subdir \<notin> deleted) subdirs
          in if \<not> list_ex (\<lambda>f. f \<noteq> []) fs \<and> \<not> still_has_subdirs
             then (rmdirs @ [current_dir], insert current_dir deleted)
             else (rmdirs, deleted))"

definition cleanup_run :: "path \<Rightarrow> dirtree \<Rightarrow> path list \<times> path set" where
  "cleanup_run root t = fold cleanup_visit (walk_bottomup root t) ([], {})"

definition cleanup :: "path \<Rightarrow> dirtree \<Rightarrow> nat" where
  "cleanup root t = card (snd (cleanup_run root t))"

text \<open>
  The last step of \<^verbatim>\<open>main\<close> (lines 249 and 250), on the tree below the source
  directory; \<open>source\<close> is the absolute path that \<^verbatim>\<open>main\<close> computes first. The result is
  the list of the directories removed and the line printed.
\<close>

record arguments =
  source :: path
  out_dir :: "path option"
  apply_flag :: bool
  verbose_flag :: bool
  cleanup_flag :: bool

definition main_cleanup :: "arguments \<Rightarrow> dirtree \<Rightarrow> (path list \<times> message list)" where
  "main_cleanup args t =
     (if cleanup_flag args
      then (fst (cleanup_run (source args) t), [DeletedDirs (cleanup (source args) t)])
      else ([], []))"

text \<open>A tree that holds no file at any depth.\<close>

fun has_no_files :: "dirtree \<Rightarrow> bool" where
  "has_no_files (Dir fs subs) = (fs = [] \<and> (\<forall>p\<in>set subs. has_no_files (snd p)))"

section \<open>Notions used in the proofs about the plan builder\<close>

text \<open>
  A target name as the first loop builds it: a stem that ends in the letter \<^verbatim>\<open>m\<close> of the
  minutes, a dot, and an extension without dots.
\<close>

definition well_shaped :: "path \<Rightarrow> bool" where
  "well_shaped n \<longleftrightarrow>
     (\<exists>a e. n = a @ CHR ''.'' # e \<and> CHR ''.'' \<notin> set e \<and> a \<noteq> [] \<and> last a = CHR ''m'')"

text \<open>The name that file number \<open>i\<close> (from 0) of a larger group gets, line 48.\<close>

definition numbered :: "string \<Rightarrow> string \<Rightarrow> nat \<Rightarrow> path" where
  "numbered d e i = d @ ''_'' @ show_nat (i + 1) @ ''.'' @ e"

text \<open>The keys that the second loop can write for the group named \<open>n\<close>.\<close>

definition produced_by :: "path \<Rightarrow> path \<Rightarrow> bool" where
  "produced_by n k \<longleftrightarrow>
     k = n \<or> (\<exists>d e i. split_on CHR ''.'' n = [d, e] \<and> k = numbered d e i)"

section \<open>Concrete states used below\<close>

text \<open>The calendar date of a timestamp.\<close>

definition date_of :: "datetime \<Rightarrow> nat \<times> nat \<times> nat" where
  "date_of t = (year t, month t, day t)"

definition jan2 :: datetime where
  "jan2 = \<lparr>year = 2024, month = 1, day = 2, hour = 10, minute = 0, second = 0\<rparr>"

definition jan3 :: datetime where
  "jan3 = \<lparr>year = 2024, month = 1, day = 3, hour = 10, minute = 0, second = 0\<rparr>"

definition may17 :: datetime where
  "may17 = \<lparr>year = 2020, month = 5, day = 17, hour = 12, minute = 0, second = 0\<rparr>"

definition nov11_morning :: datetime where
  "nov11_morning = \<lparr>year = 2026, month = 11, day = 11, hour = 8, minute = 0, second = 0\<rparr>"

definition nov11_evening :: datetime where
  "nov11_evening = \<lparr>year = 2026, month = 11, day = 11, hour = 20, minute = 30, second = 0\<rparr>"

text \<open>
  The target names of \<open>jan2\<close> and \<open>jan3\<close> for a \<^verbatim>\<open>.jpg\<close> file below the output
  directory \<^verbatim>\<open>o\<close>, a relative path. In the states below the working directory is
  \<^verbatim>\<open>/w\<close>, so these names are the locations below \<^verbatim>\<open>/w/o\<close>.
\<close>

definition jan2_name :: path where
  "jan2_name = ''o/2024/01_02_10_00_00__2th_of_January_at_10h_00m.jpg''"

definition jan3_name :: path where
  "jan3_name = ''o/2024/01_03_10_00_00__3th_of_January_at_10h_00m.jpg''"

text \<open>The same file name one year earlier.\<close>

definition jan2_2023_name :: path where
  "jan2_2023_name = ''o/2023/01_02_10_00_00__2th_of_January_at_10h_00m.jpg''"


text \<open>
  A ledger that records \<open>jan2_name\<close>, the file at that path, and an incoming file
  \<^verbatim>\<open>/s/b.jpg\<close> with the same bytes.
\<close>

definition disk_duplicate :: world where
  "disk_duplicate =
     \<lparr>cwd = ''/w'',
      store = [(''/w/o/info.json'', File (LedgerDoc [(jan2_name, ''/old/a.jpg'')])),
               (''/w/'' @ jan2_name, File (Bytes [1, 2, 3])),
               (''/s/b.jpg'', File (Bytes [1, 2, 3]))],
      stdout = []\<rparr>"


text \<open>A ledger that records the name of the year before only.\<close>

definition disk_other_year :: world where
  "disk_other_year =
     \<lparr>cwd = ''/w'',
      store = [(''/w/o/info.json'', File (LedgerDoc [(jan2_2023_name, ''/old/a.jpg'')])),
               (''/w/'' @ jan2_2023_name, File (Bytes [1, 2, 3])),
               (''/s/b.jpg'', File (Bytes [1, 2, 3]))],
      stdout = []\<rparr>"

text \<open>
  A ledger that records the name of the year before, with other content, and then
  \<open>jan2_name\<close>, with the content of the incoming file.
\<close>

definition disk_two_years :: world where
  "disk_two_years =
     \<lparr>cwd = ''/w'',
      store = [(''/w/o/info.json'',
                  File (LedgerDoc [(jan2_2023_name, ''/old/a.jpg''), (jan2_name, ''/old/c.jpg'')])),
               (''/w/'' @ jan2_2023_name, File (Bytes [9])),
               (''/w/'' @ jan2_name, File (Bytes [1, 2, 3])),
               (''/s/b.jpg'', File (Bytes [1, 2, 3]))],
      stdout = []\<rparr>"


text \<open>No ledger yet, and a file already at the target of the first of two records.\<close>

definition disk_target_taken :: world where
  "disk_target_taken =
     \<lparr>cwd = ''/w'',
      store = [(''/w/o/2024'', Directory),
               (''/w/'' @ jan2_name, File (Bytes [7])),
               (''/s/a.jpg'', File (Bytes [1])),
               (''/s/b.jpg'', File (Bytes [2]))],
      stdout = []\<rparr>"

text \<open>A source tree \<^verbatim>\<open>/r\<close> with the empty directories \<^verbatim>\<open>a\<close>, \<^verbatim>\<open>b\<close> and \<^verbatim>\<open>b/c\<close>.\<close>

definition empty_tree :: dirtree where
  "empty_tree = Dir [] [(''a'', Dir [] []), (''b'', Dir [] [(''c'', Dir [] [])])]"

definition cleanup_args :: arguments where
  "cleanup_args = \<lparr>source = ''/r'', out_dir = None, apply_flag = True, verbose_flag = False,
     cleanup_flag = True\<rparr>"




text \<open>
  A source directory \<^verbatim>\<open>/x/pictures\<close> with one picture, and the target name of \<open>jan2\<close>
  below that same directory.
\<close>

definition disk_pictures :: world where
  "disk_pictures =
     \<lparr>cwd = ''/w'',
      store = [(''/x/pictures'', Directory),
               (''/x/pictures/a.jpg'', File (Bytes [1]))],
      stdout = []\<rparr>"

definition pictures_name :: path where
  "pictures_name = ''/x/pictures/2024/01_02_10_00_00__2th_of_January_at_10h_00m.jpg''"

text \<open>A timestamp source that dates every file \<open>jan2\<close>.\<close>

definition always_jan2 :: "path \<Rightarrow> error + datetime" where
  "always_jan2 p = Inr jan2"

section \<open>Facts about strings\<close>

lemma split_on_nonempty: "split_on c s \<noteq> []"
  by (induction s) (auto simp: Let_def)

lemma split_on_no_sep: "p \<in> set (split_on c s) \<Longrightarrow> c \<notin> set p"
proof (induction s arbitrary: p)
  case Nil
  then show ?case by simp
next
  case (Cons x xs)
  obtain h r where r: "split_on c xs = h # r"
    using split_on_nonempty [of c xs] by (cases "split_on c xs") auto
  show ?case
  proof (cases "x = c")
    case True
    then show ?thesis using Cons by auto
  next
    case False
    then have "p = x # h \<or> p \<in> set r" using Cons.prems r by (auto simp: Let_def)
    then show ?thesis using Cons.IH r False by auto
  qed
qed

lemma split_on_single: "split_on c s = [a] \<Longrightarrow> s = a"
proof (induction s arbitrary: a)
  case Nil
  then show ?case by simp
next
  case (Cons x xs)
  obtain h r where r: "split_on c xs = h # r"
    using split_on_nonempty [of c xs] by (cases "split_on c xs") auto
  show ?case using Cons r by (auto simp: Let_def split: if_splits)
qed

lemma split_on_two: "split_on c s = [d, e] \<Longrightarrow> s = d @ c # e"
proof (induction s arbitrary: d)
  case Nil
  then show ?case by simp
next
  case (Cons x xs)
  obtain h r where r: "split_on c xs = h # r"
    using split_on_nonempty [of c xs] by (cases "split_on c xs") auto
  show ?case
  proof (cases "x = c")
    case True
    then have "d = []" "split_on c xs = [e]" using Cons.prems by auto
    then show ?thesis using True split_on_single by auto
  next
    case False
    then have "d = x # h" "r = [e]" using Cons.prems r by (auto simp: Let_def)
    then show ?thesis using Cons.IH [of h] r by simp
  qed
qed

lemma last_sep_unique:
  assumes "c \<notin> set e" and "c \<notin> set e'" and "a @ c # e = a' @ c # e'"
  shows "a = a' \<and> e = e'"
proof -
  have "rev e @ c # rev a = rev e' @ c # rev a'"
    using assms(3) by (metis rev_append rev.simps(2) append.assoc append_Cons append_Nil)
  moreover have "takeWhile (\<lambda>x. x \<noteq> c) (rev e @ c # rev a) = rev e"
    using assms(1) by (auto simp: takeWhile_tail takeWhile_eq_all_conv)
  moreover have "takeWhile (\<lambda>x. x \<noteq> c) (rev e' @ c # rev a') = rev e'"
    using assms(2) by (auto simp: takeWhile_tail takeWhile_eq_all_conv)
  ultimately have "rev e = rev e'" by simp
  then have "e = e'" by simp
  then show ?thesis using assms(3) by simp
qed

lemma digit_char_inj: "a < 10 \<Longrightarrow> b < 10 \<Longrightarrow> digit_char a = digit_char b \<Longrightarrow> a = b"
proof -
  assume a: "a < 10" and b: "b < 10" and e: "digit_char a = digit_char b"
  have "of_char (digit_char a) = (of_char (digit_char b) :: nat)" using e by simp
  then have "(48 + a) mod 256 = (48 + b) mod 256" by (simp add: digit_char_def)
  then show "a = b" using a b by simp
qed

lemma digit_char_not:
  assumes "d < 10"
  shows "digit_char d \<noteq> CHR ''m''" and "digit_char d \<noteq> CHR ''_''" and "digit_char d \<noteq> CHR ''.''"
proof -
  have v: "(of_char (digit_char d) :: nat) = 48 + d"
    using assms by (simp add: digit_char_def)
  show "digit_char d \<noteq> CHR ''m''"
  proof
    assume "digit_char d = CHR ''m''"
    then have "(of_char (digit_char d) :: nat) = of_char CHR ''m''" by simp
    then show False using v assms by simp
  qed
  show "digit_char d \<noteq> CHR ''_''"
  proof
    assume "digit_char d = CHR ''_''"
    then have "(of_char (digit_char d) :: nat) = of_char CHR ''_''" by simp
    then show False using v assms by simp
  qed
  show "digit_char d \<noteq> CHR ''.''"
  proof
    assume "digit_char d = CHR ''.''"
    then have "(of_char (digit_char d) :: nat) = of_char CHR ''.''" by simp
    then show False using v assms by simp
  qed
qed

lemma show_nat_nonempty: "show_nat n \<noteq> []"
  by (subst show_nat.simps) simp

lemma show_nat_last: "\<exists>d<10. last (show_nat n) = digit_char d"
proof (cases "n < 10")
  case True
  then show ?thesis by (subst show_nat.simps) auto
next
  case False
  have "n mod 10 < 10" by simp
  moreover have "last (show_nat n) = digit_char (n mod 10)"
    using False by (subst show_nat.simps) simp
  ultimately show ?thesis by blast
qed

lemma show_nat_chars: "x \<in> set (show_nat n) \<Longrightarrow> \<exists>d<10. x = digit_char d"
proof (induction n arbitrary: x rule: show_nat.induct)
  case (1 n)
  show ?case
  proof (cases "n < 10")
    case True
    then show ?thesis using "1.prems" by (subst (asm) show_nat.simps) auto
  next
    case False
    then have "x \<in> set (show_nat (n div 10)) \<or> x = digit_char (n mod 10)"
      using "1.prems" by (subst (asm) show_nat.simps) auto
    then show ?thesis using "1.IH" [OF False] by (metis mod_less_divisor zero_less_numeral)
  qed
qed

lemma show_nat_no_underscore: "CHR ''_'' \<notin> set (show_nat n)"
proof
  assume "CHR ''_'' \<in> set (show_nat n)"
  then obtain d where "d < 10" "CHR ''_'' = digit_char d" using show_nat_chars by blast
  then show False using digit_char_not(2) [of d] by simp
qed

lemma show_nat_inj: "show_nat n = show_nat m \<Longrightarrow> n = m"
proof (induction n arbitrary: m rule: show_nat.induct)
  case (1 n)
  show ?case
  proof (cases "n < 10")
    case n: True
    show ?thesis
    proof (cases "m < 10")
      case True
      then show ?thesis
        using n "1.prems" digit_char_inj [of n m]
        by (simp add: show_nat.simps [of n] show_nat.simps [of m])
    next
      case False
      then show ?thesis
        using n "1.prems" show_nat_nonempty [of "m div 10"]
        by (simp add: show_nat.simps [of n] show_nat.simps [of m])
    qed
  next
    case n: False
    show ?thesis
    proof (cases "m < 10")
      case True
      then show ?thesis
        using n "1.prems" show_nat_nonempty [of "n div 10"]
        by (simp add: show_nat.simps [of n] show_nat.simps [of m])
    next
      case False
      then have "show_nat (n div 10) = show_nat (m div 10) \<and> digit_char (n mod 10) = digit_char (m mod 10)"
        using n "1.prems" by (simp add: show_nat.simps [of n] show_nat.simps [of m])
      then have "n div 10 = m div 10 \<and> n mod 10 = m mod 10"
        using "1.IH" [OF n] digit_char_inj [of "n mod 10" "m mod 10"] by simp
      then show ?thesis by (metis div_mult_mod_eq)
    qed
  qed
qed

section \<open>The names of the plan builder\<close>

lemma strftime_name_last: "strftime_name t \<noteq> [] \<and> last (strftime_name t) = CHR ''m''"
  by (simp add: strftime_name_def)

lemma file_ext_no_dot: "CHR ''.'' \<notin> set (file_ext p)"
proof -
  have "file_ext p \<in> set (split_on CHR ''.'' (basename p))"
    unfolding file_ext_def using split_on_nonempty by (rule last_in_set)
  then show ?thesis by (rule split_on_no_sep)
qed

lemma join_suffix: "\<exists>X. join a b = X @ b"
proof -
  have "join a b = [] @ b \<or> join a b = a @ b \<or> join a b = (a @ ''/'') @ b"
    by (simp add: join_def)
  then show ?thesis by blast
qed

lemma new_name_shaped: "well_shaped (new_name out rec)"
proof -
  define F where "F = strftime_name (fst rec)"
  define ext where "ext = file_ext (snd rec)"
  obtain X where "join (join out (show_nat (year (fst rec)))) (F @ ''.'' @ ext) = X @ F @ ''.'' @ ext"
    using join_suffix by blast
  then have X: "new_name out rec = X @ F @ ''.'' @ ext"
    by (simp add: new_name_def Let_def F_def ext_def)
  have "new_name out rec = (X @ F) @ CHR ''.'' # ext" using X by simp
  moreover have "X @ F \<noteq> [] \<and> last (X @ F) = CHR ''m''"
    using strftime_name_last [of "fst rec"] by (simp add: F_def)
  moreover have "CHR ''.'' \<notin> set ext" unfolding ext_def by (rule file_ext_no_dot)
  ultimately show ?thesis unfolding well_shaped_def by blast
qed

lemma numbered_inj: "numbered d e i = numbered d e j \<Longrightarrow> i = j"
proof -
  assume "numbered d e i = numbered d e j"
  then have "show_nat (i + 1) @ ''.'' @ e = show_nat (j + 1) @ ''.'' @ e"
    by (simp add: numbered_def)
  then have "show_nat (i + 1) = show_nat (j + 1)" by simp
  then have "i + 1 = j + 1" by (rule show_nat_inj)
  then show "i = j" by simp
qed

lemma numbered_not_shaped_prefix:
  assumes "CHR ''.'' \<notin> set e" and "CHR ''.'' \<notin> set e'" and "last a = CHR ''m''"
      and "a @ CHR ''.'' # e = numbered d' e' j"
  shows False
proof -
  have "a @ CHR ''.'' # e = (d' @ ''_'' @ show_nat (j + 1)) @ CHR ''.'' # e'"
    using assms(4) by (simp add: numbered_def)
  then have a: "a = d' @ ''_'' @ show_nat (j + 1)"
    using last_sep_unique [OF assms(1,2)] by blast
  obtain x where x: "x < 10" "last (show_nat (j + 1)) = digit_char x"
    using show_nat_last by blast
  have "last a = last (show_nat (j + 1))"
    using a show_nat_nonempty [of "j + 1"] by simp
  then show False using assms(3) x digit_char_not(1) [of x] by simp
qed

lemma produced_disjoint:
  assumes n: "well_shaped n" and n': "well_shaped n'"
      and k: "produced_by n k" and k': "produced_by n' k"
  shows "n = n'"
proof -
  obtain a e where ae: "n = a @ CHR ''.'' # e" "CHR ''.'' \<notin> set e" "last a = CHR ''m''"
    using n unfolding well_shaped_def by blast
  obtain a' e' where ae': "n' = a' @ CHR ''.'' # e'" "CHR ''.'' \<notin> set e'" "last a' = CHR ''m''"
    using n' unfolding well_shaped_def by blast
  consider (same) "k = n" "k = n'"
    | (left) d' f' j where "k = n" "split_on CHR ''.'' n' = [d', f']" "k = numbered d' f' j"
    | (right) d f i where "k = n'" "split_on CHR ''.'' n = [d, f]" "k = numbered d f i"
    | (both) d f i d' f' j where "split_on CHR ''.'' n = [d, f]" "k = numbered d f i"
        "split_on CHR ''.'' n' = [d', f']" "k = numbered d' f' j"
    using k k' unfolding produced_by_def by blast
  then show ?thesis
  proof cases
    case same
    then show ?thesis by simp
  next
    case left
    have "CHR ''.'' \<notin> set f'"
      using split_on_no_sep [of f' "CHR ''.''" n'] left(2) by simp
    then show ?thesis
      using numbered_not_shaped_prefix [OF ae(2) _ ae(3), of f' d' j] left(1,3) ae(1) by simp
  next
    case right
    have "CHR ''.'' \<notin> set f"
      using split_on_no_sep [of f "CHR ''.''" n] right(2) by simp
    then show ?thesis
      using numbered_not_shaped_prefix [OF ae'(2) _ ae'(3), of f d i] right(1,3) ae'(1) by simp
  next
    case both
    have f: "CHR ''.'' \<notin> set f" using split_on_no_sep [of f "CHR ''.''" n] both(1) by simp
    have f': "CHR ''.'' \<notin> set f'" using split_on_no_sep [of f' "CHR ''.''" n'] both(3) by simp
    have "(d @ ''_'' @ show_nat (i + 1)) @ CHR ''.'' # f = (d' @ ''_'' @ show_nat (j + 1)) @ CHR ''.'' # f'"
      using both(2,4) by (simp add: numbered_def)
    then have e1: "d @ ''_'' @ show_nat (i + 1) = d' @ ''_'' @ show_nat (j + 1)" and e2: "f = f'"
      using last_sep_unique [OF f f'] by blast+
    have "d @ CHR ''_'' # show_nat (i + 1) = d' @ CHR ''_'' # show_nat (j + 1)"
      using e1 by simp
    then have "d = d'"
      using last_sep_unique [OF show_nat_no_underscore show_nat_no_underscore] by blast
    then show ?thesis
      using split_on_two [OF both(1)] split_on_two [OF both(3)] e2 by simp
  qed
qed

lemma update_fresh: "k \<notin> fst ` set al \<Longrightarrow> AList.update k v al = al @ [(k, v)]"
  by (induction al) auto

section \<open>The plan builder never reuses a name\<close>

lemma number_files_fresh:
  assumes "number_files n i grp acc = Inr moves"
      and "\<forall>k\<in>set (keys acc). \<forall>d e j. split_on CHR ''.'' n = [d, e] \<longrightarrow> k = numbered d e j \<longrightarrow> j < i"
  shows "length moves = length acc + length grp \<and>
         snd ` set moves = snd ` set acc \<union> set grp \<and>
         (\<forall>k\<in>set (keys moves). k \<in> set (keys acc) \<or> produced_by n k)"
  using assms
proof (induction grp arbitrary: i acc)
  case Nil
  then show ?case by simp
next
  case (Cons f grp)
  obtain d e where de: "split_on CHR ''.'' n = [d, e]"
    using Cons.prems(1) by (auto split: list.splits)
  define acc' where "acc' = AList.update (numbered d e i) f acc"
  have run: "number_files n (i + 1) grp acc' = Inr moves"
    using Cons.prems(1) de by (simp add: acc'_def numbered_def)
  have fresh: "numbered d e i \<notin> fst ` set acc"
  proof
    assume "numbered d e i \<in> fst ` set acc"
    then have "numbered d e i \<in> set (keys acc)" by (simp add: keys_def)
    then have "i < i" using Cons.prems(2) de by blast
    then show False by simp
  qed
  have acc': "acc' = acc @ [(numbered d e i, f)]"
    unfolding acc'_def using fresh by (rule update_fresh)
  have inv: "\<forall>k\<in>set (keys acc'). \<forall>d' e' j. split_on CHR ''.'' n = [d', e'] \<longrightarrow>
               k = numbered d' e' j \<longrightarrow> j < i + 1"
  proof (intro ballI allI impI)
    fix k d' e' j
    assume k: "k \<in> set (keys acc')" and s: "split_on CHR ''.'' n = [d', e']"
       and kj: "k = numbered d' e' j"
    have dd: "d' = d" "e' = e" using s de by simp_all
    from k have "k \<in> set (keys acc) \<or> k = numbered d e i" by (auto simp: acc' keys_def)
    then show "j < i + 1"
    proof
      assume "k \<in> set (keys acc)"
      then have "j < i" using Cons.prems(2) s kj by blast
      then show ?thesis by simp
    next
      assume "k = numbered d e i"
      then have "j = i" using kj dd numbered_inj [of d e j i] by simp
      then show ?thesis by simp
    qed
  qed
  from Cons.IH [OF run inv]
  have r: "length moves = length acc' + length grp"
          "snd ` set moves = snd ` set acc' \<union> set grp"
          "\<forall>k\<in>set (keys moves). k \<in> set (keys acc') \<or> produced_by n k"
    by blast+
  have p: "produced_by n (numbered d e i)" unfolding produced_by_def using de by blast
  have "\<forall>k\<in>set (keys moves). k \<in> set (keys acc) \<or> produced_by n k"
    using r(3) p by (auto simp: acc' keys_def)
  then show ?case using r(1,2) by (auto simp: acc')
qed

lemma assign_moves_fresh:
  assumes "assign_moves mapping acc = Inr moves"
      and "distinct (map fst mapping)"
      and "\<forall>n\<in>set (map fst mapping). well_shaped n \<and> n \<notin> D"
      and "\<forall>n\<in>D. well_shaped n"
      and "\<forall>k\<in>set (keys acc). \<exists>n\<in>D. produced_by n k"
  shows "length moves = length acc + length (concat (map snd mapping)) \<and>
         snd ` set moves = snd ` set acc \<union> set (concat (map snd mapping))"
  using assms
proof (induction mapping arbitrary: acc D)
  case Nil
  then show ?case by simp
next
  case (Cons g mapping)
  obtain n grp where g: "g = (n, grp)" by (cases g)
  have n: "well_shaped n" "n \<notin> D" using Cons.prems(3) g by simp_all
  have other: "\<And>k. k \<in> set (keys acc) \<Longrightarrow> \<not> produced_by n k"
  proof
    fix k assume k: "k \<in> set (keys acc)" and p: "produced_by n k"
    obtain n' where n': "n' \<in> D" "produced_by n' k" using Cons.prems(5) k by blast
    have "well_shaped n'" using Cons.prems(4) n'(1) by blast
    then have "n = n'" using produced_disjoint [OF n(1) _ p n'(2)] by blast
    then show False using n(2) n'(1) by simp
  qed
  obtain acc' where step: "assign_moves mapping acc' = Inr moves"
      and len: "length acc' = length acc + length grp"
      and vals: "snd ` set acc' = snd ` set acc \<union> set grp"
      and ks: "\<forall>k\<in>set (keys acc'). k \<in> set (keys acc) \<or> produced_by n k"
  proof (cases "length grp = 1")
    case True
    then obtain f where f: "grp = [f]" by (cases grp) auto
    have "n \<notin> fst ` set acc"
    proof
      assume "n \<in> fst ` set acc"
      then have "n \<in> set (keys acc)" by (simp add: keys_def)
      then show False using other [of n] by (simp add: produced_by_def)
    qed
    then have u: "AList.update n f acc = acc @ [(n, f)]" by (rule update_fresh)
    have "assign_moves mapping (acc @ [(n, f)]) = Inr moves"
      using Cons.prems(1) g f u by simp
    moreover have "\<forall>k\<in>set (keys (acc @ [(n, f)])). k \<in> set (keys acc) \<or> produced_by n k"
      by (auto simp: keys_def produced_by_def)
    ultimately show ?thesis using that [of "acc @ [(n, f)]"] f by auto
  next
    case False
    then obtain acc' where nf: "number_files n 0 grp acc = Inr acc'"
        and st: "assign_moves mapping acc' = Inr moves"
      using Cons.prems(1) g by (auto split: sum.splits)
    have "\<forall>k\<in>set (keys acc). \<forall>d e j. split_on CHR ''.'' n = [d, e] \<longrightarrow> k = numbered d e j \<longrightarrow> j < 0"
      using other unfolding produced_by_def by blast
    from number_files_fresh [OF nf this] show ?thesis using that [of acc'] st by blast
  qed
  have d1: "distinct (map fst mapping)" using Cons.prems(2) by simp
  have d2: "\<forall>m\<in>set (map fst mapping). well_shaped m \<and> m \<notin> insert n D"
    using Cons.prems(2,3) g by auto
  have d3: "\<forall>m\<in>insert n D. well_shaped m" using Cons.prems(4) n(1) by simp
  have d4: "\<forall>k\<in>set (keys acc'). \<exists>m\<in>insert n D. produced_by m k"
    using ks Cons.prems(5) by blast
  from Cons.IH [OF step d1 d2 d3 d4] show ?case
    using len vals g by auto
qed

lemma number_files_distinct:
  "number_files n i grp acc = Inr moves \<Longrightarrow> distinct (map fst acc) \<Longrightarrow> distinct (map fst moves)"
proof (induction grp arbitrary: i acc)
  case Nil
  then show ?case by simp
next
  case (Cons f grp)
  then show ?case
    by (auto split: list.splits intro: AList.distinct_update)
qed

lemma assign_moves_distinct:
  "assign_moves mapping acc = Inr moves \<Longrightarrow> distinct (map fst acc) \<Longrightarrow> distinct (map fst moves)"
proof (induction mapping arbitrary: acc)
  case Nil
  then show ?case by simp
next
  case (Cons g mapping)
  obtain n grp where g: "g = (n, grp)" by (cases g)
  show ?case
  proof (cases "length grp = 1")
    case True
    then show ?thesis
      using Cons g AList.distinct_update [of acc n "grp ! 0"] by simp
  next
    case False
    then obtain acc' where nf: "number_files n 0 grp acc = Inr acc'"
        and st: "assign_moves mapping acc' = Inr moves"
      using Cons.prems(1) g by (auto split: sum.splits)
    show ?thesis
      using Cons.IH [OF st] number_files_distinct [OF nf Cons.prems(2)] by simp
  qed
qed

lemma update_group:
  assumes "map_of m n = Some grp"
  shows "length (concat (map snd (AList.update n (grp @ [p]) m))) = Suc (length (concat (map snd m))) \<and>
         set (concat (map snd (AList.update n (grp @ [p]) m))) = insert p (set (concat (map snd m)))"
  using assms by (induction m) (auto split: if_splits)

lemma add_to_mapping_props:
  assumes "distinct (map fst m)" and "\<forall>n\<in>set (map fst m). well_shaped n"
  shows "distinct (map fst (add_to_mapping out rec m)) \<and>
         (\<forall>n\<in>set (map fst (add_to_mapping out rec m)). well_shaped n) \<and>
         length (concat (map snd (add_to_mapping out rec m))) = Suc (length (concat (map snd m))) \<and>
         set (concat (map snd (add_to_mapping out rec m))) = insert (snd rec) (set (concat (map snd m)))"
proof (cases "map_of m (new_name out rec)")
  case None
  then have "new_name out rec \<notin> fst ` set m" by (simp add: map_of_eq_None_iff)
  then have u: "AList.update (new_name out rec) [snd rec] m = m @ [(new_name out rec, [snd rec])]"
    by (rule update_fresh)
  have a: "add_to_mapping out rec m = m @ [(new_name out rec, [snd rec])]"
    using None u by (simp add: add_to_mapping_def Let_def)
  show ?thesis
    unfolding a using assms new_name_shaped [of out rec] \<open>new_name out rec \<notin> fst ` set m\<close>
    by auto
next
  case (Some grp)
  have a: "add_to_mapping out rec m = AList.update (new_name out rec) (grp @ [snd rec]) m"
    using Some by (simp add: add_to_mapping_def Let_def)
  have k: "fst ` set (AList.update (new_name out rec) (grp @ [snd rec]) m) =
      {new_name out rec} \<union> fst ` set m"
    by (rule AList.dom_update)
  show ?thesis
    unfolding a
    using assms update_group [OF Some, of "snd rec"] new_name_shaped [of out rec] k
      AList.distinct_update [OF assms(1), of "new_name out rec" "grp @ [snd rec]"]
    by auto
qed

lemma fold_add_to_mapping_props:
  assumes "distinct (map fst m)" and "\<forall>n\<in>set (map fst m). well_shaped n"
  shows "distinct (map fst (fold (add_to_mapping out) pictures m)) \<and>
         (\<forall>n\<in>set (map fst (fold (add_to_mapping out) pictures m)). well_shaped n) \<and>
         length (concat (map snd (fold (add_to_mapping out) pictures m))) =
           length (concat (map snd m)) + length pictures \<and>
         set (concat (map snd (fold (add_to_mapping out) pictures m))) =
           set (concat (map snd m)) \<union> snd ` set pictures"
  using assms
proof (induction pictures arbitrary: m)
  case Nil
  then show ?case by simp
next
  case (Cons rec pictures)
  from add_to_mapping_props [OF Cons.prems, of out rec]
  have s: "distinct (map fst (add_to_mapping out rec m))"
          "\<forall>n\<in>set (map fst (add_to_mapping out rec m)). well_shaped n"
          "length (concat (map snd (add_to_mapping out rec m))) = Suc (length (concat (map snd m)))"
          "set (concat (map snd (add_to_mapping out rec m))) = insert (snd rec) (set (concat (map snd m)))"
    by blast+
  from Cons.IH [OF s(1,2)] show ?case using s(3,4) by auto
qed

lemma create_moves_props:
  assumes "create_moves pictures out = Inr moves"
  shows "distinct (map fst moves)" and "length moves = length pictures"
    and "snd ` set moves = snd ` set pictures"
proof -
  define mapping where "mapping = build_mapping out pictures"
  have run: "assign_moves mapping [] = Inr moves"
    using assms by (simp add: create_moves_def mapping_def)
  have m: "distinct (map fst mapping)" "\<forall>n\<in>set (map fst mapping). well_shaped n"
          "length (concat (map snd mapping)) = length pictures"
          "set (concat (map snd mapping)) = snd ` set pictures"
    using fold_add_to_mapping_props [of "[]" out pictures]
    by (simp_all add: mapping_def build_mapping_def)
  show "distinct (map fst moves)"
    using assign_moves_distinct [OF run] by simp
  have "length moves = length ([] :: path dict) + length (concat (map snd mapping)) \<and>
         snd ` set moves = snd ` set ([] :: path dict) \<union> set (concat (map snd mapping))"
    by (rule assign_moves_fresh [OF run m(1), of "{}"]) (use m(2) in \<open>simp_all add: keys_def\<close>)
  then show "length moves = length pictures" and "snd ` set moves = snd ` set pictures"
    using m(3,4) by simp_all
qed

text \<open>
  Claim C6. Whenever \<^verbatim>\<open>create_moves\<close> returns a plan, the keys of the plan are pairwise
  distinct and the plan has as many entries as there are records: no assignment of the
  second loop overwrites an earlier one, so a suffixed name never collides with another
  suffixed name nor with the name of another group. (The function raises, and returns no
  plan, when a group of several files has a name with more than one dot, which happens
  when the output directory has a dot in its path.)
\<close>

theorem plan_keys_never_collide:
  assumes "create_moves pictures out = Inr moves"
  shows "distinct (keys moves) \<and> length moves = length pictures"
  using create_moves_props(1,2) [OF assms] by (simp add: keys_def)

text \<open>The theorem for three records, two of them with the same timestamp.\<close>

theorem plan_keys_never_collide_witness:
  "create_moves [(jan2, ''/s/a.jpg''), (jan2, ''/s/b.jpg''), (jan3, ''/s/c.jpg'')] ''o'' =
     Inr [(''o/2024/01_02_10_00_00__2th_of_January_at_10h_00m_1.jpg'', ''/s/a.jpg''),
          (''o/2024/01_02_10_00_00__2th_of_January_at_10h_00m_2.jpg'', ''/s/b.jpg''),
          (jan3_name, ''/s/c.jpg'')] \<and>
   distinct (keys [(''o/2024/01_02_10_00_00__2th_of_January_at_10h_00m_1.jpg'', ''/s/a.jpg''),
          (''o/2024/01_02_10_00_00__2th_of_January_at_10h_00m_2.jpg'', ''/s/b.jpg''),
          (jan3_name, ''/s/c.jpg'')]) \<and>
   length [(''o/2024/01_02_10_00_00__2th_of_January_at_10h_00m_1.jpg'', ''/s/a.jpg''),
          (''o/2024/01_02_10_00_00__2th_of_January_at_10h_00m_2.jpg'', ''/s/b.jpg''),
          (jan3_name, ''/s/c.jpg'')] =
     length [(jan2, ''/s/a.jpg''), (jan2, ''/s/b.jpg''), (jan3, ''/s/c.jpg'')]"
proof -
  have h: "create_moves [(jan2, ''/s/a.jpg''), (jan2, ''/s/b.jpg''), (jan3, ''/s/c.jpg'')] ''o'' =
     Inr [(''o/2024/01_02_10_00_00__2th_of_January_at_10h_00m_1.jpg'', ''/s/a.jpg''),
          (''o/2024/01_02_10_00_00__2th_of_January_at_10h_00m_2.jpg'', ''/s/b.jpg''),
          (jan3_name, ''/s/c.jpg'')]"
    by code_simp
  show ?thesis
    using h plan_keys_never_collide [OF h] by blast
qed

section \<open>Basic facts about the world\<close>

lemma resolve_print [simp]: "resolve (print m w) = resolve w"
  by (simp add: fun_eq_iff resolve_def print_def)

lemma resolve_write_node [simp]: "resolve (write_node p nd w) = resolve w"
  by (simp add: fun_eq_iff resolve_def write_node_def)

lemma resolve_os_remove [simp]: "resolve (os_remove p w) = resolve w"
  by (simp add: fun_eq_iff resolve_def os_remove_def)

lemma files_print [simp]: "files (print m w) = files w"
  by (simp add: fun_eq_iff files_def resolve_def print_def)

lemma stdout_print [simp]: "stdout (print m w) = stdout w @ [m]"
  by (simp add: print_def)

lemma store_print [simp]: "store (print m w) = store w"
  by (simp add: print_def)

lemma cwd_print [simp]: "cwd (print m w) = cwd w"
  by (simp add: print_def)

lemma stdout_write_node [simp]: "stdout (write_node p nd w) = stdout w"
  by (simp add: write_node_def)

lemma stdout_os_remove [simp]: "stdout (os_remove p w) = stdout w"
  by (simp add: os_remove_def)

lemma cwd_write_node [simp]: "cwd (write_node p nd w) = cwd w"
  by (simp add: write_node_def)

lemma cwd_os_remove [simp]: "cwd (os_remove p w) = cwd w"
  by (simp add: os_remove_def)

lemma files_write_node:
  "files (write_node p nd w) q = (if resolve w q = resolve w p then Some nd else files w q)"
  by (simp add: files_def write_node_def resolve_def AList.update_conv')

lemma files_os_remove:
  "files (os_remove p w) q = (if resolve w q = resolve w p then None else files w q)"
  by (simp add: files_def os_remove_def resolve_def AList.delete_conv')

lemma files_cong: "store w' = store w \<Longrightarrow> cwd w' = cwd w \<Longrightarrow> files w' = files w"
  by (simp add: fun_eq_iff files_def resolve_def)


section \<open>Dry runs change no file\<close>

lemma check_entry_dry_store:
  assumes "check_entry True k s = Inr s'"
  shows "store (snd (snd s')) = store (snd (snd s)) \<and> cwd (snd (snd s')) = cwd (snd (snd s))"
  using assms
  by (cases s) (auto simp: check_entry_def Let_def split: if_splits option.splits sum.splits)

lemma check_loop_dry_store:
  "store (fst (check_loop True ks s)) = store (snd (snd s)) \<and>
   cwd (fst (check_loop True ks s)) = cwd (snd (snd s))"
proof (induction ks arbitrary: s)
  case Nil
  show ?case by simp
next
  case (Cons k ks)
  show ?case
  proof (cases "check_entry True k s")
    case (Inl e)
    then show ?thesis by simp
  next
    case (Inr s')
    then show ?thesis
      using Cons.IH [of s'] check_entry_dry_store [OF Inr] by simp
  qed
qed

lemma check_update_old_info_dry_store:
  "store (fst (check_update_old_info moves json_file True w)) = store w \<and>
   cwd (fst (check_update_old_info moves json_file True w)) = cwd w"
  using check_loop_dry_store
  by (simp add: check_update_old_info_def split: sum.splits)

lemma fold_print_store:
  "store (fold (\<lambda>(new_name, file). print (Planned file new_name)) moves w) = store w \<and>
   cwd (fold (\<lambda>(new_name, file). print (Planned file new_name)) moves w) = cwd w"
  by (induction moves arbitrary: w) (auto split: prod.splits)

lemma append_moves_to_json_dry_store:
  "store (fst (append_moves_to_json moves json_file True w)) = store w \<and>
   cwd (fst (append_moves_to_json moves json_file True w)) = cwd w"
  by (simp add: append_moves_to_json_def Let_def split: sum.splits list.splits)

lemma dryrun_move_files_store:
  "store (fst (dryrun_move_files pictures out w)) = store w \<and>
   cwd (fst (dryrun_move_files pictures out w)) = cwd w"
proof (cases "create_moves pictures out")
  case (Inl e)
  then show ?thesis by (simp add: dryrun_move_files_def)
next
  case (Inr moves)
  obtain w1 r1 where c: "check_update_old_info moves (join out ''info.json'') True w = (w1, r1)"
    by (cases "check_update_old_info moves (join out ''info.json'') True w")
  have f1: "store w1 = store w \<and> cwd w1 = cwd w"
    using check_update_old_info_dry_store [of moves "join out ''info.json''" w] c by simp
  show ?thesis
  proof (cases r1)
    case (Inl e)
    then show ?thesis using Inr c f1 by (simp add: dryrun_move_files_def)
  next
    case r: (Inr res)
    obtain moves' n where res: "res = (moves', n)" by (cases res)
    define w2 where "w2 = fold (\<lambda>(new_name, file). print (Planned file new_name)) moves' w1"
    have f2: "store w2 = store w \<and> cwd w2 = cwd w"
      using fold_print_store [of moves' w1] f1 by (simp add: w2_def)
    obtain w3 r3 where a: "append_moves_to_json moves' (join out ''info.json'') True w2 = (w3, r3)"
      by (cases "append_moves_to_json moves' (join out ''info.json'') True w2")
    have f3: "store w3 = store w \<and> cwd w3 = cwd w"
      using append_moves_to_json_dry_store [of moves' "join out ''info.json''" w2] a f2 by simp
    show ?thesis
      using Inr c r res a f3 w2_def
      by (cases r3) (simp_all add: dryrun_move_files_def Let_def)
  qed
qed

text \<open>
  Claim C4. A dry run leaves the whole file system as it was, the output tree and
  \<^verbatim>\<open>info.json\<close> included: whatever the records, the output directory and the state
  of the disk, and whether the run ends normally or with an exception, the files after
  \<^verbatim>\<open>dryrun_move_files\<close> are the files before it, under every name, and so are the
  store behind them and the working directory.
\<close>

theorem dryrun_leaves_files_unchanged:
  "files (fst (dryrun_move_files pictures out w)) = files w \<and>
   store (fst (dryrun_move_files pictures out w)) = store w \<and>
   cwd (fst (dryrun_move_files pictures out w)) = cwd w"
  using dryrun_move_files_store [of pictures out w] files_cong by blast

section \<open>One iteration of the reconciliation loop\<close>

lemma basename_suffix: "suffix (basename t) t"
proof -
  have "rev t = takeWhile (\<lambda>c. c \<noteq> CHR ''/'') (rev t) @ dropWhile (\<lambda>c. c \<noteq> CHR ''/'') (rev t)"
    by simp
  then have "t = rev (dropWhile (\<lambda>c. c \<noteq> CHR ''/'') (rev t)) @ basename t"
    unfolding basename_def by (metis rev_append rev_rev_ident)
  then show ?thesis by (metis suffixI)
qed

lemma basename_sublist: "sublist (basename t) t"
  using basename_suffix by (rule suffix_imp_sublist)

lemma filter_singleton_unique:
  assumes "filter P xs = [t]" and "x \<in> set xs" and "P x"
  shows "x = t"
proof -
  have "x \<in> set (filter P xs)" using assms(2,3) by simp
  then have "x \<in> set [t]" by (simp only: assms(1))
  then show ?thesis by simp
qed

lemma length_one_singleton: "length xs = Suc 0 \<Longrightarrow> xs = [xs ! 0]"
  by (cases xs) auto

lemma check_entry_no_match:
  assumes "basename k \<notin> set (map basename (keys moves))"
  shows "check_entry dry_run k (moves, n, w) = Inr (moves, n, w)"
  using assms by (simp add: check_entry_def)

text \<open>
  When the iteration finds the file name of \<open>k\<close> among the file names of the plan and
  does not raise, the plan key it works on is the one whose file name is that of \<open>k\<close>.
\<close>

lemma check_entry_match:
  assumes ok: "check_entry dry_run k (moves, n, w) = Inr s'"
      and m: "basename k \<in> set (map basename (keys moves))"
  shows "\<exists>t p same. map_of moves t = Some p \<and> basename t = basename k \<and>
           filter (sublist (basename k)) (keys moves) = [t] \<and>
           filecmp (files w) (existing_location k) p = Inr same \<and>
           s' = (AList.delete t moves,
                 if same \<and> \<not> dry_run then n + 1 else n,
                 if \<not> same then print (Different k p) w
                 else if \<not> dry_run then os_remove p w else w)"
proof -
  define inc where "inc = filter (sublist (basename k)) (keys moves)"
  have len: "length inc = Suc 0"
    using ok m by (auto simp: check_entry_def Let_def inc_def split: if_splits)
  then have inc1: "inc = [inc ! 0]" by (rule length_one_singleton)
  define t where "t = inc ! 0"
  have inc_t: "filter (sublist (basename k)) (keys moves) = [t]"
    using inc1 by (simp add: inc_def t_def)
  obtain p where p: "map_of moves t = Some p"
    using ok m len by (auto simp: check_entry_def Let_def inc_def t_def split: if_splits option.splits)
  obtain same where same: "filecmp (files w) (existing_location k) p = Inr same"
    using ok m len p
    by (auto simp: check_entry_def Let_def inc_def t_def split: if_splits option.splits sum.splits)
  have s': "s' = (AList.delete t moves,
                 if same \<and> \<not> dry_run then n + 1 else n,
                 if \<not> same then print (Different k p) w
                 else if \<not> dry_run then os_remove p w else w)"
    using ok m len p same
    by (auto simp: check_entry_def Let_def inc_def t_def split: if_splits)
  obtain t0 where t0: "t0 \<in> set (keys moves)" "basename t0 = basename k"
    using m by auto
  have "sublist (basename k) t0" using basename_sublist [of t0] t0(2) by simp
  then have "t0 = t" using filter_singleton_unique [OF inc_t t0(1)] by simp
  then have "basename t = basename k" using t0(2) by simp
  then show ?thesis using p inc_t same s' by blast
qed

lemma filecmp_same:
  assumes "filecmp fs a b = Inr True"
  shows "\<exists>c. fs a = Some (File c) \<and> fs b = Some (File c)"
  using assms
  by (auto simp: filecmp_def split: option.splits node.splits)

lemma filecmp_exist:
  assumes "filecmp fs a b = Inr same"
  shows "fs a \<noteq> None \<and> fs b \<noteq> None"
  using assms by (auto simp: filecmp_def split: option.splits)

lemma filecmp_agree:
  assumes "fs a = fs' a" and "fs b = fs' b"
  shows "filecmp fs a b = filecmp fs' a b"
  using assms by (simp add: filecmp_def split: option.splits)

lemma set_delete_subset: "set (AList.delete t moves) \<subseteq> set moves"
  by (auto simp: AList.delete_eq)

lemma check_entry_cwd:
  assumes "check_entry dry_run k (moves, n, w) = Inr (moves', n', w')"
  shows "cwd w' = cwd w"
proof (cases "basename k \<in> set (map basename (keys moves))")
  case False
  then show ?thesis using assms check_entry_no_match [of k moves dry_run n w] by simp
next
  case True
  from check_entry_match [OF assms True] show ?thesis by (auto split: if_splits)
qed


text \<open>What one iteration may change: it only drops plan entries, and the node under a
  name changes only by the removal of a file that compared equal.\<close>

lemma check_entry_step:
  assumes ok: "check_entry dry_run k (moves, n, w) = Inr (moves', n', w')"
  shows "set moves' \<subseteq> set moves"
    and "files w' q \<noteq> files w q \<Longrightarrow>
           \<not> dry_run \<and> files w' q = None \<and>
           (\<exists>t p c. (t, p) \<in> set moves \<and> resolve w p = resolve w q \<and> basename t = basename k \<and>
                  files w (existing_location k) = Some (File c) \<and> files w q = Some (File c))"
proof -
  show "set moves' \<subseteq> set moves"
  proof (cases "basename k \<in> set (map basename (keys moves))")
    case False
    then show ?thesis using ok check_entry_no_match [of k moves dry_run n w] by simp
  next
    case True
    from check_entry_match [OF ok True]
    obtain t where "moves' = AList.delete t moves" by auto
    then show ?thesis using set_delete_subset [of t moves] by simp
  qed
next
  assume ch: "files w' q \<noteq> files w q"
  show "\<not> dry_run \<and> files w' q = None \<and>
           (\<exists>t p c. (t, p) \<in> set moves \<and> resolve w p = resolve w q \<and> basename t = basename k \<and>
                  files w (existing_location k) = Some (File c) \<and> files w q = Some (File c))"
  proof (cases "basename k \<in> set (map basename (keys moves))")
    case False
    then show ?thesis using ok ch check_entry_no_match [of k moves dry_run n w] by simp
  next
    case True
    from check_entry_match [OF ok True]
    obtain t p same where
      p: "map_of moves t = Some p" and bt: "basename t = basename k" and
      cmp: "filecmp (files w) (existing_location k) p = Inr same" and
      w': "w' = (if \<not> same then print (Different k p) w
                 else if \<not> dry_run then os_remove p w else w)"
      by auto
    have real: "same \<and> \<not> dry_run \<and> resolve w q = resolve w p"
      using ch w' by (auto simp: files_os_remove split: if_splits)
    then have w'': "files w' q = None" using w' by (simp add: files_os_remove)
    have "filecmp (files w) (existing_location k) p = Inr True" using cmp real by simp
    from filecmp_same [OF this]
    obtain c where c: "files w (existing_location k) = Some (File c)" "files w p = Some (File c)"
      by auto
    have "files w q = files w p" using real by (simp add: files_def)
    then have cq: "files w q = Some (File c)" using c(2) by simp
    have "(t, p) \<in> set moves" using p by (auto dest: map_of_SomeD)
    then show ?thesis using real w'' bt c(1) cq by auto
  qed
qed

section \<open>What the reconciliation does with each entry\<close>

lemma check_entry_keeps_gone:
  assumes "check_entry dry_run k (moves, n, w) = Inr (moves', n', w')" and "files w q = None"
  shows "files w' q = None"
  using check_entry_step(2) [OF assms(1), of q] assms(2) by force

lemma check_entry_stdout:
  assumes "check_entry dry_run k (moves, n, w) = Inr (moves', n', w')"
  shows "set (stdout w) \<subseteq> set (stdout w')"
proof (cases "basename k \<in> set (map basename (keys moves))")
  case False
  then show ?thesis using assms check_entry_no_match [of k moves dry_run n w] by simp
next
  case True
  from check_entry_match [OF assms True] show ?thesis by (auto split: if_splits)
qed

lemma check_entry_distinct:
  assumes "check_entry dry_run k (moves, n, w) = Inr (moves', n', w')" and "distinct (map fst moves)"
  shows "distinct (map fst moves')"
proof (cases "basename k \<in> set (map basename (keys moves))")
  case False
  then show ?thesis using assms check_entry_no_match [of k moves dry_run n w] by simp
next
  case True
  from check_entry_match [OF assms(1) True] show ?thesis
    using AList.distinct_delete [OF assms(2)] by auto
qed


lemma check_loop_cwd:
  assumes "check_loop dry_run ks (moves, n, w) = (w', r)"
  shows "cwd w' = cwd w"
  using assms
proof (induction ks arbitrary: moves n w)
  case Nil
  then show ?case by simp
next
  case (Cons k ks)
  show ?case
  proof (cases "check_entry dry_run k (moves, n, w)")
    case (Inl e)
    then show ?thesis using Cons.prems by simp
  next
    case (Inr s1)
    obtain m1 n1 w1 where s1: "s1 = (m1, n1, w1)" by (cases s1)
    have ok: "check_entry dry_run k (moves, n, w) = Inr (m1, n1, w1)" using Inr s1 by simp
    have "check_loop dry_run ks (m1, n1, w1) = (w', r)" using Cons.prems(1) ok by simp
    then show ?thesis
      using Cons.IH check_entry_cwd [OF ok] by simp
  qed
qed

lemma check_loop_keeps_gone:
  assumes "check_loop dry_run ks (moves, n, w) = (w', r)" and "files w q = None"
  shows "files w' q = None"
  using assms
proof (induction ks arbitrary: moves n w)
  case Nil
  then show ?case by simp
next
  case (Cons k ks)
  show ?case
  proof (cases "check_entry dry_run k (moves, n, w)")
    case (Inl e)
    then show ?thesis using Cons.prems by simp
  next
    case (Inr s1)
    obtain m1 n1 w1 where s1: "s1 = (m1, n1, w1)" by (cases s1)
    have ok: "check_entry dry_run k (moves, n, w) = Inr (m1, n1, w1)" using Inr s1 by simp
    have "check_loop dry_run ks (m1, n1, w1) = (w', r)" using Cons.prems(1) ok by simp
    then show ?thesis
      using Cons.IH check_entry_keeps_gone [OF ok Cons.prems(2)] by blast
  qed
qed

lemma check_loop_stdout:
  assumes "check_loop dry_run ks (moves, n, w) = (w', r)"
  shows "set (stdout w) \<subseteq> set (stdout w')"
  using assms
proof (induction ks arbitrary: moves n w)
  case Nil
  then show ?case by simp
next
  case (Cons k ks)
  show ?case
  proof (cases "check_entry dry_run k (moves, n, w)")
    case (Inl e)
    then show ?thesis using Cons.prems by simp
  next
    case (Inr s1)
    obtain m1 n1 w1 where s1: "s1 = (m1, n1, w1)" by (cases s1)
    have ok: "check_entry dry_run k (moves, n, w) = Inr (m1, n1, w1)" using Inr s1 by simp
    have "check_loop dry_run ks (m1, n1, w1) = (w', r)" using Cons.prems(1) ok by simp
    then show ?thesis
      using Cons.IH check_entry_stdout [OF ok] by blast
  qed
qed


lemma check_loop_subset:
  assumes "check_loop dry_run ks (moves, n, w) = (w', Inr (moves', n'))"
  shows "set moves' \<subseteq> set moves"
  using assms
proof (induction ks arbitrary: moves n w)
  case Nil
  then show ?case by simp
next
  case (Cons k ks)
  show ?case
  proof (cases "check_entry dry_run k (moves, n, w)")
    case (Inl e)
    then show ?thesis using Cons.prems by simp
  next
    case (Inr s1)
    obtain m1 n1 w1 where s1: "s1 = (m1, n1, w1)" by (cases s1)
    have ok: "check_entry dry_run k (moves, n, w) = Inr (m1, n1, w1)" using Inr s1 by simp
    have "check_loop dry_run ks (m1, n1, w1) = (w', Inr (moves', n'))" using Cons.prems(1) ok by simp
    then show ?thesis
      using Cons.IH check_entry_step(1) [OF ok] by blast
  qed
qed

section \<open>Files that differ\<close>




section \<open>Which files are compared\<close>

lemma check_entry_unchanged_names:
  assumes ok: "check_entry dry_run k (moves, n, w) = Inr (moves', n', w')"
      and ex: "files w' q \<noteq> None"
  shows "files w' q = files w q"
  using check_entry_step(2) [OF ok, of q] ex by blast

lemma check_entry_keeps_other:
  assumes ok: "check_entry dry_run k (moves, n, w) = Inr (moves', n', w')"
      and tp: "(t, p) \<in> set moves" and other: "basename k \<noteq> basename t"
  shows "(t, p) \<in> set moves'"
proof (cases "basename k \<in> set (map basename (keys moves))")
  case False
  then show ?thesis using ok tp check_entry_no_match [of k moves dry_run n w] by simp
next
  case True
  from check_entry_match [OF ok True]
  obtain t0 where t0: "basename t0 = basename k" "moves' = AList.delete t0 moves" by auto
  have "t \<noteq> t0" using t0(1) other by auto
  then show ?thesis using tp t0(2) by (auto simp: AList.delete_eq)
qed

lemma check_entry_takes:
  assumes ok: "check_entry dry_run k (moves, n, w) = Inr (moves', n', w')"
      and d: "distinct (map fst moves)"
      and tp: "(t, p) \<in> set moves" and match: "basename k = basename t"
  shows "\<exists>same. filecmp (files w) (existing_location k) p = Inr same \<and>
           moves' = AList.delete t moves \<and>
           w' = (if \<not> same then print (Different k p) w
                 else if \<not> dry_run then os_remove p w else w)"
proof -
  have tk: "t \<in> set (keys moves)" using tp by (force simp: keys_def)
  then have m: "basename k \<in> set (map basename (keys moves))" using match by force
  from check_entry_match [OF ok m]
  obtain t0 p0 same where
    f: "map_of moves t0 = Some p0" "filter (sublist (basename k)) (keys moves) = [t0]"
       "filecmp (files w) (existing_location k) p0 = Inr same"
       "moves' = AList.delete t0 moves"
       "w' = (if \<not> same then print (Different k p0) w
              else if \<not> dry_run then os_remove p0 w else w)"
    by auto
  have "sublist (basename k) t" using basename_sublist [of t] match by simp
  then have t: "t = t0" by (rule filter_singleton_unique [OF f(2) tk])
  have "map_of moves t = Some p" using d tp by simp
  then have "p = p0" using f(1) t by simp
  then show ?thesis using f(3,4,5) t by blast
qed

lemma check_loop_entry:
  assumes run: "check_loop dry_run ks (moves, n, w) = (w', Inr (moves', n'))"
      and d: "distinct (map fst moves)" and tp: "(t, p) \<in> set moves"
  shows "(find (\<lambda>k. basename k = basename t) ks = None \<longrightarrow> (t, p) \<in> set moves') \<and>
         (\<forall>k. find (\<lambda>k. basename k = basename t) ks = Some k \<longrightarrow>
            t \<notin> set (keys moves') \<and>
            (\<exists>same. filecmp (files w) (existing_location k) p = Inr same \<and>
               (\<not> same \<longrightarrow> Different k p \<in> set (stdout w')) \<and>
               (same \<and> \<not> dry_run \<longrightarrow> files w' p = None)))"
  using run d tp
proof (induction ks arbitrary: moves n w)
  case Nil
  then show ?case by simp
next
  case (Cons k ks)
  obtain s1 where i: "check_entry dry_run k (moves, n, w) = Inr s1"
    using Cons.prems(1) by (cases "check_entry dry_run k (moves, n, w)") auto
  obtain m1 n1 w1 where s1: "s1 = (m1, n1, w1)" by (cases s1)
  have ok: "check_entry dry_run k (moves, n, w) = Inr (m1, n1, w1)" using i s1 by simp
  have rest: "check_loop dry_run ks (m1, n1, w1) = (w', Inr (moves', n'))"
    using Cons.prems(1) ok by simp
  show ?case
  proof (cases "basename k = basename t")
    case True
    from check_entry_takes [OF ok Cons.prems(2,3) True]
    obtain same where
      f: "filecmp (files w) (existing_location k) p = Inr same" "m1 = AList.delete t moves"
         "w1 = (if \<not> same then print (Different k p) w
                else if \<not> dry_run then os_remove p w else w)"
      by blast
    have "set moves' \<subseteq> set m1" by (rule check_loop_subset [OF rest])
    then have "set (keys moves') \<subseteq> set (keys (AList.delete t moves))"
      using f(2) by (auto simp: keys_def)
    moreover have "t \<notin> set (keys (AList.delete t moves))"
      by (simp add: keys_def AList.delete_keys)
    ultimately have gone: "t \<notin> set (keys moves')" by blast
    have rep: "Different k p \<in> set (stdout w')" if "\<not> same"
    proof -
      have "Different k p \<in> set (stdout w1)" using f(3) that by simp
      then show ?thesis using check_loop_stdout [OF rest] by blast
    qed
    have rem: "files w' p = None" if "same \<and> \<not> dry_run"
    proof -
      have "files w1 p = None" using f(3) that by (simp add: files_os_remove)
      then show ?thesis by (rule check_loop_keeps_gone [OF rest])
    qed
    show ?thesis using True gone f(1) rep rem by auto
  next
    case False
    have tp1: "(t, p) \<in> set m1" by (rule check_entry_keeps_other [OF ok Cons.prems(3) False])
    have d1: "distinct (map fst m1)" by (rule check_entry_distinct [OF ok Cons.prems(2)])
    note IH = Cons.IH [OF rest d1 tp1]
    have tr: "filecmp (files w) (existing_location k2) p = Inr same"
      if "filecmp (files w1) (existing_location k2) p = Inr same" for k2 same
    proof -
      have "files w1 (existing_location k2) \<noteq> None \<and> files w1 p \<noteq> None"
        using that by (rule filecmp_exist)
      then have "files w1 (existing_location k2) = files w (existing_location k2)"
          "files w1 p = files w p"
        using check_entry_unchanged_names [OF ok] by blast+
      then show ?thesis using filecmp_agree [of "files w1" _ "files w"] that by simp
    qed
    have eq: "find (\<lambda>k. basename k = basename t) (k # ks) =
        find (\<lambda>k. basename k = basename t) ks"
      using False by simp
    show ?thesis
    proof (intro conjI allI impI)
      assume "find (\<lambda>k. basename k = basename t) (k # ks) = None"
      then show "(t, p) \<in> set moves'" using IH eq by simp
    next
      fix k2 assume "find (\<lambda>k. basename k = basename t) (k # ks) = Some k2"
      then have f: "find (\<lambda>k. basename k = basename t) ks = Some k2" using eq by simp
      then show "t \<notin> set (keys moves')" using IH by blast
      from IH f obtain same where
        s: "filecmp (files w1) (existing_location k2) p = Inr same"
           "\<not> same \<longrightarrow> Different k2 p \<in> set (stdout w')"
           "same \<and> \<not> dry_run \<longrightarrow> files w' p = None"
        by blast
      have "filecmp (files w) (existing_location k2) p = Inr same" by (rule tr [OF s(1)])
      then show "\<exists>same. filecmp (files w) (existing_location k2) p = Inr same \<and>
               (\<not> same \<longrightarrow> Different k2 p \<in> set (stdout w')) \<and>
               (same \<and> \<not> dry_run \<longrightarrow> files w' p = None)"
        using s(2,3) by blast
    qed
  qed
qed

lemma check_entry_new_report:
  assumes ok: "check_entry dry_run k (moves, n, w) = Inr (moves', n', w')"
      and new: "m \<in> set (stdout w')" "m \<notin> set (stdout w)"
  shows "\<exists>t p. map_of moves t = Some p \<and> basename t = basename k \<and> m = Different k p"
proof (cases "basename k \<in> set (map basename (keys moves))")
  case False
  then show ?thesis using ok new check_entry_no_match [of k moves dry_run n w] by simp
next
  case True
  from check_entry_match [OF ok True]
  obtain t p same where
    f: "map_of moves t = Some p" "basename t = basename k"
       "w' = (if \<not> same then print (Different k p) w
              else if \<not> dry_run then os_remove p w else w)"
    by auto
  have "m = Different k p" using new f(3) by (auto split: if_splits)
  then show ?thesis using f(1,2) by blast
qed

lemma check_loop_reports:
  assumes run: "check_loop dry_run ks (moves, n, w) = (w', r)"
      and d: "distinct (map fst moves)"
      and new: "Different e q \<in> set (stdout w')" "Different e q \<notin> set (stdout w)"
  shows "\<exists>t. (t, q) \<in> set moves \<and> find (\<lambda>k. basename k = basename t) ks = Some e"
  using run d new(2)
proof (induction ks arbitrary: moves n w)
  case Nil
  then show ?case using new(1) by simp
next
  case (Cons k ks)
  show ?case
  proof (cases "check_entry dry_run k (moves, n, w)")
    case (Inl err)
    then have "w' = w" using Cons.prems(1) by simp
    then show ?thesis using new(1) Cons.prems(3) by simp
  next
    case (Inr s1)
    obtain m1 n1 w1 where s1: "s1 = (m1, n1, w1)" by (cases s1)
    have ok: "check_entry dry_run k (moves, n, w) = Inr (m1, n1, w1)" using Inr s1 by simp
    have rest: "check_loop dry_run ks (m1, n1, w1) = (w', r)"
      using Cons.prems(1) ok by simp
    show ?thesis
    proof (cases "Different e q \<in> set (stdout w1)")
      case True
      from check_entry_new_report [OF ok True Cons.prems(3)]
      obtain t p where f: "map_of moves t = Some p" "basename t = basename k"
          "Different e q = Different k p"
        by blast
      have "(t, q) \<in> set moves" using f(1,3) by (auto dest: map_of_SomeD)
      moreover have "find (\<lambda>k'. basename k' = basename t) (k # ks) = Some e"
        using f(2,3) by simp
      ultimately show ?thesis by blast
    next
      case False
      have d1: "distinct (map fst m1)" by (rule check_entry_distinct [OF ok Cons.prems(2)])
      from Cons.IH [OF rest d1 False]
      obtain t where t: "(t, q) \<in> set m1" "find (\<lambda>k. basename k = basename t) ks = Some e"
        by blast
      have tq: "(t, q) \<in> set moves" using t(1) check_entry_step(1) [OF ok] by blast
      have "basename k \<noteq> basename t"
      proof
        assume eq: "basename k = basename t"
        from check_entry_takes [OF ok Cons.prems(2) tq eq]
        have "m1 = AList.delete t moves" by blast
        then have "t \<notin> fst ` set m1" using AList.delete_notin_dom [of t moves] by simp
        then show False using t(1) by force
      qed
      then have "find (\<lambda>k'. basename k' = basename t) (k # ks) = Some e"
        using t(2) by simp
      then show ?thesis using tq by blast
    qed
  qed
qed

text \<open>
  Claim C5, as amended. Let the reconciliation return a plan, and take an entry of the
  plan given to it, with target \<open>t\<close> and source \<open>p\<close>. The entry is compared exactly
  when the file name of \<open>t\<close> (the \<^verbatim>\<open>basename\<close>, which leaves the year directory out) is
  the file name of some ledger key, whether or not \<open>t\<close> itself is a ledger key. The
  comparison is made once, for the first such ledger key \<open>k\<close> in the order of the
  ledger: the files compared are the one at \<open>k\<close>'s path with \<^verbatim>\<open>/pictures_sorted/\<close>
  rewritten to \<^verbatim>\<open>/pictures/\<close> and \<open>p\<close>, as they were before the call. The entry then
  leaves the returned plan, with a report when the files differ and with \<open>p\<close> removed
  when they are equal in apply mode. An entry whose file name no ledger key has stays in
  the returned plan. Every report that the call prints comes from such a comparison, so
  a later ledger key with the same file name, the key \<open>t\<close> itself included, is not
  compared.
\<close>

theorem comparison_goes_by_file_name:
  assumes run: "check_update_old_info moves json_file dry_run w = (w', Inr (moves', n'))"
      and load: "load_info (files w) json_file = Inr old_info"
      and dist: "distinct (keys moves)"
      and entry: "(t, p) \<in> set moves"
  shows "(find (\<lambda>k. basename k = basename t) (keys old_info) = None \<longrightarrow> (t, p) \<in> set moves') \<and>
         (\<forall>k. find (\<lambda>k. basename k = basename t) (keys old_info) = Some k \<longrightarrow>
            t \<notin> set (keys moves') \<and>
            (\<exists>same. filecmp (files w) (existing_location k) p = Inr same \<and>
               (\<not> same \<longrightarrow> Different k p \<in> set (stdout w')) \<and>
               (same \<and> \<not> dry_run \<longrightarrow> files w' p = None))) \<and>
         (\<forall>e q. Different e q \<in> set (stdout w') \<and> Different e q \<notin> set (stdout w) \<longrightarrow>
            (\<exists>t'. (t', q) \<in> set moves \<and>
               find (\<lambda>k. basename k = basename t') (keys old_info) = Some e))"
proof -
  have loop: "check_loop dry_run (keys old_info) (moves, 0, w) = (w', Inr (moves', n'))"
    using run load by (simp add: check_update_old_info_def)
  have d: "distinct (map fst moves)" using dist by (simp add: keys_def)
  show ?thesis
    using check_loop_entry [OF loop d entry] check_loop_reports [OF loop d]
    by blast
qed

text \<open>
  The theorem at \<open>disk_two_years\<close>: the ledger has the name of 2023 first and then the
  key of the plan itself; the entry is compared with the file of 2023, which differs, and
  not with the file at its own key, which has the same bytes.
\<close>

theorem comparison_goes_by_file_name_witness:
  "find (\<lambda>k. basename k = basename jan2_name)
      (keys [(jan2_2023_name, ''/old/a.jpg''), (jan2_name, ''/old/c.jpg'')]) = Some jan2_2023_name \<and>
   jan2_name \<notin> set (keys (fst (projr (snd
     (check_update_old_info [(jan2_name, ''/s/b.jpg'')] ''o/info.json'' False disk_two_years))))) \<and>
   filecmp (files disk_two_years) (existing_location jan2_2023_name) ''/s/b.jpg'' = Inr False \<and>
   Different jan2_2023_name ''/s/b.jpg'' \<in> set (stdout (fst
     (check_update_old_info [(jan2_name, ''/s/b.jpg'')] ''o/info.json'' False disk_two_years))) \<and>
   files (fst
     (check_update_old_info [(jan2_name, ''/s/b.jpg'')] ''o/info.json'' False disk_two_years))
     ''/s/b.jpg'' = Some (File (Bytes [1, 2, 3]))"
proof -
  define res where
    "res = check_update_old_info [(jan2_name, ''/s/b.jpg'')] ''o/info.json'' False disk_two_years"
  have "\<not> isl (snd
      (check_update_old_info [(jan2_name, ''/s/b.jpg'')] ''o/info.json'' False disk_two_years))"
    by code_simp
  then have "snd res = Inr (fst (projr (snd res)), snd (projr (snd res)))"
    unfolding res_def by simp
  then have run: "check_update_old_info [(jan2_name, ''/s/b.jpg'')] ''o/info.json'' False
      disk_two_years = (fst res, Inr (fst (projr (snd res)), snd (projr (snd res))))"
    unfolding res_def by (metis prod.collapse)
  have load: "load_info (files disk_two_years) ''o/info.json'' =
      Inr [(jan2_2023_name, ''/old/a.jpg''), (jan2_name, ''/old/c.jpg'')]"
    by code_simp
  have dist: "distinct (keys [(jan2_name, ''/s/b.jpg'')])" by (simp add: keys_def)
  have entry: "(jan2_name, ''/s/b.jpg'') \<in> set [(jan2_name, ''/s/b.jpg'')]" by simp
  have first: "find (\<lambda>k. basename k = basename jan2_name)
      (keys [(jan2_2023_name, ''/old/a.jpg''), (jan2_name, ''/old/c.jpg'')]) = Some jan2_2023_name"
    by code_simp
  have differ: "filecmp (files disk_two_years) (existing_location jan2_2023_name) ''/s/b.jpg'' =
      Inr False"
    by code_simp
  have still: "files (fst
     (check_update_old_info [(jan2_name, ''/s/b.jpg'')] ''o/info.json'' False disk_two_years))
     ''/s/b.jpg'' = Some (File (Bytes [1, 2, 3]))"
    by code_simp
  note th = comparison_goes_by_file_name [OF run load dist entry]
  from th first have gone: "jan2_name \<notin> set (keys (fst (projr (snd res))))" by blast
  from th first obtain same where
    s: "filecmp (files disk_two_years) (existing_location jan2_2023_name) ''/s/b.jpg'' = Inr same"
       "\<not> same \<longrightarrow> Different jan2_2023_name ''/s/b.jpg'' \<in> set (stdout (fst res))"
    by blast
  have "\<not> same" using s(1) differ by simp
  then have "Different jan2_2023_name ''/s/b.jpg'' \<in> set (stdout (fst res))" using s(2) by simp
  then show ?thesis using first gone differ still unfolding res_def by blast
qed

text \<open>
  The claim as stated fails at \<open>disk_other_year\<close>: the only ledger key is not a key of
  the plan, and yet the incoming file is compared with the file at that ledger key, found
  equal, counted and removed.
\<close>

theorem comparison_without_shared_key_counterexample:
  "load_info (files disk_other_year) ''o/info.json'' = Inr [(jan2_2023_name, ''/old/a.jpg'')] \<and>
   jan2_2023_name \<notin> set (keys [(jan2_name, ''/s/b.jpg'')]) \<and>
   snd (check_update_old_info [(jan2_name, ''/s/b.jpg'')] ''o/info.json'' False disk_other_year) =
     Inr ([], 1) \<and>
   files (fst (check_update_old_info [(jan2_name, ''/s/b.jpg'')] ''o/info.json'' False disk_other_year))
     ''/s/b.jpg'' = None"
  by code_simp

section \<open>The duplicate count of a dry run\<close>

text \<open>
  Claim C7. On \<open>disk_duplicate\<close> the one incoming file is a duplicate of the recorded
  one. The apply run counts it and prints that it deleted one duplicate; the dry run on
  the same input counts nothing and prints nothing, since the counter is only
  incremented when \<^verbatim>\<open>dry_run\<close> is false. The line \<^verbatim>\<open>Would have deleted ...\<close> of
  \<^verbatim>\<open>dryrun_move_files\<close> can therefore never be printed.
\<close>

theorem dry_run_counts_no_duplicate:
  "snd (check_update_old_info [(jan2_name, ''/s/b.jpg'')] ''o/info.json'' False disk_duplicate) =
     Inr ([], 1) \<and>
   snd (check_update_old_info [(jan2_name, ''/s/b.jpg'')] ''o/info.json'' True disk_duplicate) =
     Inr ([], 0) \<and>
   stdout (fst (do_move_files [(jan2, ''/s/b.jpg'')] ''o'' disk_duplicate)) = [Moving, Deleted 1] \<and>
   stdout (fst (dryrun_move_files [(jan2, ''/s/b.jpg'')] ''o'' disk_duplicate)) = []"
  by code_simp

section \<open>A target that already exists\<close>

lemma move_files_append:
  "move_files (pre @ rest) w =
     (case move_files pre w of (w1, Some e) \<Rightarrow> (w1, Some e) | (w1, None) \<Rightarrow> move_files rest w1)"
proof (induction pre arbitrary: w)
  case Nil
  show ?case by simp
next
  case (Cons m pre)
  obtain a b where m: "m = (a, b)" by (cases m)
  obtain w' r where s: "sort_file_in a b w = (w', r)" by (cases "sort_file_in a b w")
  show ?case using Cons.IH [of w'] m s by (cases r) simp_all
qed

lemma sort_file_in_target_exists:
  assumes "files w new_file \<noteq> None" and "files w (dirname new_file) \<noteq> None"
  shows "sort_file_in new_file old_file w = (w, Some (TargetAlreadyExists old_file new_file))"
  using assms by (auto simp: sort_file_in_def Let_def)

text \<open>
  Claim C8, as amended. Let the reconciled plan be \<open>pre\<close>, then the move of
  \<open>old_file\<close> to \<open>new_file\<close>, then \<open>post\<close>, and let the moves of \<open>pre\<close> succeed and
  lead to the world \<open>w2\<close>, in which \<open>new_file\<close> exists (and so does its directory).
  Then \<^verbatim>\<open>sort_file_in\<close> raises instead of overwriting, and the exception ends the whole
  run in \<open>w2\<close>: the existing file and \<open>old_file\<close> are untouched, none of the moves of
  \<open>post\<close> is made, and \<^verbatim>\<open>info.json\<close> is not written.
\<close>

theorem existing_target_aborts_run:
  assumes plan: "create_moves pictures out = Inr moves"
      and reconciled: "check_update_old_info moves (join out ''info.json'') False (print Moving w) =
             (w1, Inr (pre @ (new_file, old_file) # post, n))"
      and before: "move_files pre w1 = (w2, None)"
      and taken: "files w2 new_file \<noteq> None"
      and parent: "files w2 (dirname new_file) \<noteq> None"
  shows "do_move_files pictures out w = (w2, Some (TargetAlreadyExists old_file new_file))"
proof -
  have "move_files (pre @ (new_file, old_file) # post) w1 =
          (w2, Some (TargetAlreadyExists old_file new_file))"
    using before sort_file_in_target_exists [OF taken parent, of old_file]
    by (simp add: move_files_append)
  then show ?thesis
    using plan reconciled by (simp add: do_move_files_def Let_def)
qed

theorem existing_target_aborts_run_witness:
  "do_move_files [(jan2, ''/s/a.jpg''), (jan3, ''/s/b.jpg'')] ''o'' disk_target_taken =
     (print Moving disk_target_taken, Some (TargetAlreadyExists ''/s/a.jpg'' jan2_name))"
proof -
  have plan: "create_moves [(jan2, ''/s/a.jpg''), (jan3, ''/s/b.jpg'')] ''o'' =
      Inr [(jan2_name, ''/s/a.jpg''), (jan3_name, ''/s/b.jpg'')]"
    by code_simp
  have reconciled: "check_update_old_info [(jan2_name, ''/s/a.jpg''), (jan3_name, ''/s/b.jpg'')]
      (join ''o'' ''info.json'') False (print Moving disk_target_taken) =
         (print Moving disk_target_taken,
          Inr ([] @ (jan2_name, ''/s/a.jpg'') # [(jan3_name, ''/s/b.jpg'')], 0))"
  proof -
    have j: "join ''o'' ''info.json'' = ''o/info.json''" by code_simp
    have ld: "load_info (files disk_target_taken) ''o/info.json'' = Inr []"
      by code_simp
    show ?thesis by (simp add: check_update_old_info_def j ld keys_def)
  qed
  have before: "move_files [] (print Moving disk_target_taken) = (print Moving disk_target_taken, None)"
    by simp
  have taken: "files (print Moving disk_target_taken) jan2_name \<noteq> None"
    by code_simp
  have parent: "files (print Moving disk_target_taken) (dirname jan2_name) \<noteq> None"
    by code_simp
  show ?thesis
    by (rule existing_target_aborts_run [OF plan reconciled before taken parent])
qed

text \<open>
  The claim as stated fails at \<open>disk_target_taken\<close>: the first target exists, the run
  ends with the exception, and the second file, whose target is free, is not moved.
\<close>

theorem existing_target_stops_later_moves_counterexample:
  "snd (do_move_files [(jan2, ''/s/a.jpg''), (jan3, ''/s/b.jpg'')] ''o'' disk_target_taken) =
     Some (TargetAlreadyExists ''/s/a.jpg'' jan2_name) \<and>
   files disk_target_taken jan3_name = None \<and>
   files (fst (do_move_files [(jan2, ''/s/a.jpg''), (jan3, ''/s/b.jpg'')] ''o'' disk_target_taken))
     ''/s/b.jpg'' = Some (File (Bytes [2])) \<and>
   files (fst (do_move_files [(jan2, ''/s/a.jpg''), (jan3, ''/s/b.jpg'')] ''o'' disk_target_taken))
     jan3_name = None"
  by code_simp

section \<open>What a run may remove\<close>









section \<open>No target is the ledger\<close>







section \<open>A file is removed only after a comparison\<close>





section \<open>The timestamp fallback looks at the date only\<close>

text \<open>
  Claim C9, as amended. The fallback never looks at the time of day. It returns the
  resolved timestamp, the conversion of the earlier of the two file times, whenever that
  timestamp is not on the current date; and whether it fails is the same for any two
  calls whose resolved timestamps share their date and whose current times share theirs.
\<close>

theorem fallback_decides_on_the_date:
  fixes fromtimestamp :: "'t::linorder \<Rightarrow> datetime" and fromtimestamp' :: "'u::linorder \<Rightarrow> datetime"
  shows "(date_of (fromtimestamp (min ctime mtime)) \<noteq> date_of now \<longrightarrow>
            extract_timestamp_from_filemeta fromtimestamp now ctime mtime =
              Inr (fromtimestamp (min ctime mtime))) \<and>
         (date_of (fromtimestamp (min ctime mtime)) = date_of (fromtimestamp' (min ctime' mtime')) \<and>
          date_of now = date_of now' \<longrightarrow>
            isl (extract_timestamp_from_filemeta fromtimestamp now ctime mtime) =
            isl (extract_timestamp_from_filemeta fromtimestamp' now' ctime' mtime'))"
  by (auto simp: extract_timestamp_from_filemeta_def date_of_def Let_def)

theorem fallback_decides_on_the_date_witness:
  "date_of ((\<lambda>e::int. may17) (min 100 200)) \<noteq> date_of nov11_evening \<and>
   extract_timestamp_from_filemeta (\<lambda>e::int. may17) nov11_evening 100 200 = Inr may17 \<and>
   isl (extract_timestamp_from_filemeta (\<lambda>e::int. nov11_morning) nov11_evening 100 200) =
   isl (extract_timestamp_from_filemeta (\<lambda>e::int. nov11_evening) nov11_morning 300 400)"
proof -
  have d: "date_of ((\<lambda>e::int. may17) (min 100 200)) \<noteq> date_of nov11_evening"
    by (simp add: date_of_def may17_def nov11_evening_def)
  have s: "date_of ((\<lambda>e::int. nov11_morning) (min 100 200)) =
           date_of ((\<lambda>e::int. nov11_evening) (min 300 400)) \<and>
           date_of nov11_evening = date_of nov11_morning"
    by (simp add: date_of_def nov11_morning_def nov11_evening_def)
  have r1: "extract_timestamp_from_filemeta (\<lambda>e::int. may17) nov11_evening 100 200 = Inr may17"
    using d fallback_decides_on_the_date [of "\<lambda>e::int. may17" 100 200 nov11_evening
        "\<lambda>e::int. may17" 100 200 nov11_evening]
    by blast
  have r2: "isl (extract_timestamp_from_filemeta (\<lambda>e::int. nov11_morning) nov11_evening 100 200) =
      isl (extract_timestamp_from_filemeta (\<lambda>e::int. nov11_evening) nov11_morning 300 400)"
    using s fallback_decides_on_the_date [of "\<lambda>e::int. nov11_morning" 100 200 nov11_evening
        "\<lambda>e::int. nov11_evening" 300 400 nov11_morning]
    by blast
  show ?thesis using d r1 r2 by blast
qed

text \<open>
  The claim as stated fails when the file times convert to 8:00 in the morning of
  11 November 2026 and the run takes place at 20:30 of the same day: the timestamp does
  not match the time of the run, and the fallback rejects it.
\<close>

theorem fallback_rejects_other_time_of_day_counterexample:
  "nov11_morning \<noteq> nov11_evening \<and>
   extract_timestamp_from_filemeta (\<lambda>e::int. nov11_morning) nov11_evening 100 200 =
     Inl (Suspicious nov11_morning)"
  by (simp add: extract_timestamp_from_filemeta_def nov11_morning_def nov11_evening_def)

section \<open>The tree cleaner removes an emptied root\<close>

lemma cleanup_visit_mono: "snd s \<subseteq> snd (cleanup_visit e s)"
  by (cases e; cases s) (auto simp: cleanup_visit_def Let_def)

lemma fold_cleanup_visit_mono: "snd s \<subseteq> snd (fold cleanup_visit es s)"
proof (induction es arbitrary: s)
  case Nil
  show ?case by simp
next
  case (Cons e es)
  show ?case using cleanup_visit_mono [of s e] Cons.IH [of "cleanup_visit e s"] by auto
qed

lemma cleanup_visit_rmdirs: "set (fst s) = snd s \<Longrightarrow> set (fst (cleanup_visit e s)) = snd (cleanup_visit e s)"
  by (cases e; cases s) (auto simp: cleanup_visit_def Let_def)

lemma fold_cleanup_visit_rmdirs:
  "set (fst s) = snd s \<Longrightarrow> set (fst (fold cleanup_visit es s)) = snd (fold cleanup_visit es s)"
  by (induction es arbitrary: s) (simp_all add: cleanup_visit_rmdirs)

lemma cleanup_visit_upper: "snd (cleanup_visit e s) \<subseteq> insert (fst e) (snd s)"
  by (cases e; cases s) (auto simp: cleanup_visit_def Let_def)

lemma fold_cleanup_visit_upper: "snd (fold cleanup_visit es s) \<subseteq> fst ` set es \<union> snd s"
proof (induction es arbitrary: s)
  case Nil
  show ?case by simp
next
  case (Cons e es)
  show ?case using cleanup_visit_upper [of e s] Cons.IH [of "cleanup_visit e s"] by auto
qed

lemma walk_bottomup_unfold:
  "fold cleanup_visit (walk_bottomup top_dir (Dir fs subs)) s =
     cleanup_visit (top_dir, map fst subs, fs)
       (fold cleanup_visit (concat (map (\<lambda>(name, t). walk_bottomup (join top_dir name) t) subs)) s)"
  by simp

lemma cleanup_visit_removes:
  assumes "\<not> list_ex (\<lambda>f. f \<noteq> []) fs" and "\<forall>name\<in>set names. join d name \<in> snd s"
  shows "cleanup_visit (d, names, fs) s = (fst s @ [d], insert d (snd s))"
  using assms by (cases s) (auto simp: cleanup_visit_def Let_def list_ex_iff)

lemma top_in_walk: "top_dir \<in> fst ` set (walk_bottomup top_dir t)"
  by (cases t) (simp add: image_Un)

lemma children_removed:
  assumes IH: "\<And>p top_dir s. p \<in> set subs \<Longrightarrow>
            fst ` set (walk_bottomup top_dir (snd p)) \<subseteq> snd (fold cleanup_visit (walk_bottomup top_dir (snd p)) s)"
  shows "(\<Union>p\<in>set subs. fst ` set (walk_bottomup (join top_dir (fst p)) (snd p))) \<subseteq>
           snd (fold cleanup_visit (concat (map (\<lambda>(name, t). walk_bottomup (join top_dir name) t) subs)) s)"
  using IH
proof (induction subs arbitrary: s)
  case Nil
  show ?case by simp
next
  case (Cons p subs)
  obtain name t where p: "p = (name, t)" by (cases p)
  define s1 where "s1 = fold cleanup_visit (walk_bottomup (join top_dir name) t) s"
  have a: "fst ` set (walk_bottomup (join top_dir name) t) \<subseteq> snd s1"
    using Cons.prems [of p "join top_dir name" s] p by (simp add: s1_def)
  have b: "(\<Union>p\<in>set subs. fst ` set (walk_bottomup (join top_dir (fst p)) (snd p))) \<subseteq>
           snd (fold cleanup_visit (concat (map (\<lambda>(name, t). walk_bottomup (join top_dir name) t) subs)) s1)"
    using Cons.IH [of s1] Cons.prems by simp
  have c: "snd s1 \<subseteq> snd (fold cleanup_visit (concat (map (\<lambda>(name, t). walk_bottomup (join top_dir name) t) subs)) s1)"
    by (rule fold_cleanup_visit_mono)
  show ?case using a b c p by (auto simp: s1_def)
qed

lemma tree_without_files_removed:
  "has_no_files t \<Longrightarrow>
     fst ` set (walk_bottomup top_dir t) \<subseteq> snd (fold cleanup_visit (walk_bottomup top_dir t) s)"
proof (induction t arbitrary: top_dir s)
  case (Dir fs subs)
  define below where
    "below = fold cleanup_visit (concat (map (\<lambda>(name, t). walk_bottomup (join top_dir name) t) subs)) s"
  have IH: "\<And>p top_dir s. p \<in> set subs \<Longrightarrow>
            fst ` set (walk_bottomup top_dir (snd p)) \<subseteq> snd (fold cleanup_visit (walk_bottomup top_dir (snd p)) s)"
  proof -
    fix p :: "string \<times> dirtree" and top_dir s
    assume p: "p \<in> set subs"
    then have "has_no_files (snd p)" using Dir.prems by simp
    moreover have "snd p \<in> Basic_BNFs.snds p" by (cases p) simp
    ultimately show "fst ` set (walk_bottomup top_dir (snd p)) \<subseteq> snd (fold cleanup_visit (walk_bottomup top_dir (snd p)) s)"
      using Dir.IH [OF p] by blast
  qed
  have ch: "(\<Union>p\<in>set subs. fst ` set (walk_bottomup (join top_dir (fst p)) (snd p))) \<subseteq> snd below"
    unfolding below_def by (rule children_removed [OF IH])
  have "\<forall>name\<in>set (map fst subs). join top_dir name \<in> snd below"
  proof
    fix name assume "name \<in> set (map fst subs)"
    then obtain p where p: "p \<in> set subs" "fst p = name" by auto
    have "join top_dir name \<in> fst ` set (walk_bottomup (join top_dir (fst p)) (snd p))"
      using top_in_walk [of "join top_dir name" "snd p"] p(2) by simp
    then show "join top_dir name \<in> snd below" using ch p(1) by blast
  qed
  moreover have "\<not> list_ex (\<lambda>f. f \<noteq> []) fs" using Dir.prems by simp
  ultimately have v: "cleanup_visit (top_dir, map fst subs, fs) below = (fst below @ [top_dir], insert top_dir (snd below))"
    using cleanup_visit_removes by blast
  have w: "fst ` set (walk_bottomup top_dir (Dir fs subs)) =
      insert top_dir (\<Union>p\<in>set subs. fst ` set (walk_bottomup (join top_dir (fst p)) (snd p)))"
    by (auto simp: image_Un image_UN split: prod.splits) force+
  show ?case
    unfolding walk_bottomup_unfold w using v ch by (auto simp: below_def)
qed

lemma cleanup_run_rmdirs: "set (fst (cleanup_run root t)) = snd (cleanup_run root t)"
  unfolding cleanup_run_def by (rule fold_cleanup_visit_rmdirs) simp

lemma cleanup_run_without_files:
  assumes "has_no_files t"
  shows "snd (cleanup_run root t) = fst ` set (walk_bottomup root t)"
proof
  show "snd (cleanup_run root t) \<subseteq> fst ` set (walk_bottomup root t)"
    using fold_cleanup_visit_upper [of "walk_bottomup root t" "([], {})"]
    by (simp add: cleanup_run_def)
  show "fst ` set (walk_bottomup root t) \<subseteq> snd (cleanup_run root t)"
    unfolding cleanup_run_def by (rule tree_without_files_removed [OF assms])
qed

text \<open>
  Claim C10. \<open>below\<close> is the state of the loop when the walk has reported every
  directory under the root: the calls of \<^verbatim>\<open>os.rmdir\<close> made so far and the set
  \<^verbatim>\<open>deleted\<close>. If the root has no files and each of its subdirectories is in that set,
  then \<^verbatim>\<open>main\<close>, called with \<^verbatim>\<open>--cleanup\<close>, removes the source directory itself as the
  last directory, and the number it prints counts the root and every directory removed
  under it. In particular, of a source tree that holds no file at all, every directory
  is removed, the root included, and all of them are counted.
\<close>

theorem cleanup_removes_emptied_root:
  assumes flag: "cleanup_flag args"
      and below: "below = fold cleanup_visit
             (concat (map (\<lambda>(name, t). walk_bottomup (join (source args) name) t) subs)) ([], {})"
  shows "(\<not> list_ex (\<lambda>f. f \<noteq> []) fs \<and> (\<forall>name\<in>set (map fst subs). join (source args) name \<in> snd below) \<longrightarrow>
            main_cleanup args (Dir fs subs) =
              (fst below @ [source args], [DeletedDirs (card (insert (source args) (snd below)))])) \<and>
         (has_no_files (Dir fs subs) \<longrightarrow>
            source args \<in> set (fst (main_cleanup args (Dir fs subs))) \<and>
            set (fst (main_cleanup args (Dir fs subs))) =
              fst ` set (walk_bottomup (source args) (Dir fs subs)) \<and>
            snd (main_cleanup args (Dir fs subs)) =
              [DeletedDirs (card (fst ` set (walk_bottomup (source args) (Dir fs subs))))])"
proof (intro conjI impI)
  assume a: "\<not> list_ex (\<lambda>f. f \<noteq> []) fs \<and> (\<forall>name\<in>set (map fst subs). join (source args) name \<in> snd below)"
  have run: "cleanup_run (source args) (Dir fs subs) =
      cleanup_visit (source args, map fst subs, fs) below"
    unfolding cleanup_run_def below by (rule walk_bottomup_unfold)
  have "cleanup_visit (source args, map fst subs, fs) below =
      (fst below @ [source args], insert (source args) (snd below))"
    using a cleanup_visit_removes by blast
  then show "main_cleanup args (Dir fs subs) =
      (fst below @ [source args], [DeletedDirs (card (insert (source args) (snd below)))])"
    using flag run by (simp add: main_cleanup_def cleanup_def)
next
  assume e: "has_no_files (Dir fs subs)"
  have s: "snd (cleanup_run (source args) (Dir fs subs)) =
      fst ` set (walk_bottomup (source args) (Dir fs subs))"
    by (rule cleanup_run_without_files [OF e])
  have r: "set (fst (cleanup_run (source args) (Dir fs subs))) =
      fst ` set (walk_bottomup (source args) (Dir fs subs))"
    using cleanup_run_rmdirs [of "source args" "Dir fs subs"] s by simp
  show "set (fst (main_cleanup args (Dir fs subs))) =
          fst ` set (walk_bottomup (source args) (Dir fs subs))"
    using flag r by (simp add: main_cleanup_def)
  then show "source args \<in> set (fst (main_cleanup args (Dir fs subs)))"
    using top_in_walk [of "source args" "Dir fs subs"] by simp
  show "snd (main_cleanup args (Dir fs subs)) =
              [DeletedDirs (card (fst ` set (walk_bottomup (source args) (Dir fs subs))))]"
    using flag s by (simp add: main_cleanup_def cleanup_def)
qed

text \<open>The theorem at the tree \<open>empty_tree\<close>: four directories are removed, the root last.\<close>

theorem cleanup_removes_emptied_root_witness:
  "main_cleanup cleanup_args empty_tree = ([''/r/a'', ''/r/b/c'', ''/r/b'', ''/r''], [DeletedDirs 4]) \<and>
   set (fst (main_cleanup cleanup_args empty_tree)) =
     fst ` set (walk_bottomup ''/r'' empty_tree)"
proof -
  define subs where "subs = [(''a'', Dir [] []), (''b'', Dir [] [(''c'', Dir [] [])])]"
  define below where "below = fold cleanup_visit
      (concat (map (\<lambda>(name, t). walk_bottomup (join (source cleanup_args) name) t) subs)) ([], {})"
  have tree: "empty_tree = Dir [] subs" by (simp add: empty_tree_def subs_def)
  have flag: "cleanup_flag cleanup_args" by (simp add: cleanup_args_def)
  have src: "source cleanup_args = ''/r''" by (simp add: cleanup_args_def)
  have bval: "below = ([''/r/a'', ''/r/b/c'', ''/r/b''], {''/r/b'', ''/r/b/c'', ''/r/a''})"
    unfolding below_def subs_def src
    by (simp add: join_def cleanup_visit_def)
  have h1: "\<not> list_ex (\<lambda>f. f \<noteq> []) ([] :: string list) \<and>
      (\<forall>name\<in>set (map fst subs). join (source cleanup_args) name \<in> snd below)"
    unfolding bval src subs_def by (simp add: join_def)
  have h2: "has_no_files (Dir [] subs)" by (simp add: subs_def)
  note th = cleanup_removes_emptied_root [OF flag below_def, of "[]"]
  have "main_cleanup cleanup_args (Dir [] subs) =
      (fst below @ [source cleanup_args],
       [DeletedDirs (card (insert (source cleanup_args) (snd below)))])"
    using th h1 by blast
  then have a: "main_cleanup cleanup_args empty_tree = ([''/r/a'', ''/r/b/c'', ''/r/b'', ''/r''], [DeletedDirs 4])"
    unfolding tree bval src by simp
  have b: "set (fst (main_cleanup cleanup_args (Dir [] subs))) =
      fst ` set (walk_bottomup (source cleanup_args) (Dir [] subs))"
    using th h2 by blast
  show ?thesis using a b unfolding tree src by simp
qed

section \<open>Applying twice\<close>

subsection \<open>Dictionaries\<close>



lemma distinct_dict_update:
  "distinct (map fst d) \<Longrightarrow> distinct (map fst (dict_update d e))"
  unfolding dict_update_def
proof (induction e arbitrary: d)
  case Nil
  then show ?case by simp
next
  case (Cons x e)
  obtain k v where x: "x = (k, v)" by (cases x)
  show ?case using Cons.IH [OF AList.distinct_update [OF Cons.prems, of k v]] x by simp
qed

lemma load_info_distinct: "load_info fs json_file = Inr old_info \<Longrightarrow> distinct (map fst old_info)"
  by (auto simp: load_info_def distinct_dict_update split: option.splits node.splits content.splits)

subsection \<open>A run without records\<close>




subsection \<open>Where a regular file can appear\<close>


lemma sort_file_in_cwd: "sort_file_in t p w = (w', r) \<Longrightarrow> cwd w' = cwd w"
  by (auto simp: sort_file_in_def Let_def makedirs_def split: if_splits option.splits)




lemma move_files_cwd: "move_files ms w = (w', r) \<Longrightarrow> cwd w' = cwd w"
proof (induction ms arbitrary: w)
  case Nil
  then show ?case by simp
next
  case (Cons m ms)
  obtain t p where m: "m = (t, p)" by (cases m)
  obtain w1 r1 where s: "sort_file_in t p w = (w1, r1)" by (cases "sort_file_in t p w")
  have c1: "cwd w1 = cwd w" by (rule sort_file_in_cwd [OF s])
  show ?case
  proof (cases r1)
    case (Some e)
    then show ?thesis using Cons.prems m s c1 by simp
  next
    case None
    then have "move_files ms w1 = (w', r)" using Cons.prems m s by simp
    from Cons.IH [OF this] show ?thesis using c1 by simp
  qed
qed





lemma append_moves_to_json_written:
  assumes "append_moves_to_json moves json_file False w = (w', Inr r)"
  shows "files w' json_file = Some (File (LedgerDoc r))" and "distinct (map fst r)"
    and "stdout w' = stdout w" and "cwd w' = cwd w"
proof -
  obtain old_info where li: "load_info (files w) json_file = Inr old_info"
    using assms by (auto simp: append_moves_to_json_def split: sum.splits)
  have r: "r = dict_update old_info moves"
    using assms li
    by (auto simp: append_moves_to_json_def Let_def split: list.splits sum.splits option.splits
        node.splits if_splits)
  show "distinct (map fst r)"
    unfolding r using load_info_distinct [OF li] by (rule distinct_dict_update)
  define wa where "wa = write_node (dirname json_file) Directory w"
  have "w' = write_node json_file (File (LedgerDoc r)) w \<or>
      w' = write_node json_file (File (LedgerDoc r)) wa"
    using assms li
    by (auto simp: append_moves_to_json_def Let_def makedirs_exist_ok_def wa_def
        split: list.splits sum.splits option.splits node.splits if_splits)
  moreover have "cwd wa = cwd w \<and> stdout wa = stdout w" by (simp add: wa_def)
  ultimately have "\<exists>w1. cwd w1 = cwd w \<and> stdout w1 = stdout w \<and>
      w' = write_node json_file (File (LedgerDoc r)) w1"
    by blast
  then obtain w1 where w1: "cwd w1 = cwd w" "stdout w1 = stdout w"
      "w' = write_node json_file (File (LedgerDoc r)) w1"
    by blast
  show "files w' json_file = Some (File (LedgerDoc r))" using w1(3) by (simp add: files_write_node)
  show "stdout w' = stdout w" using w1 by simp
  show "cwd w' = cwd w" using w1 by simp
qed


subsection \<open>The phases of a run that ends normally\<close>

lemma do_move_files_phases:
  assumes first: "do_move_files pictures out w = (w1, None)"
      and plan: "create_moves pictures out = Inr moves"
  shows "\<exists>(old_info :: path dict) wr moves' n wm w3 r.
           check_loop False (keys old_info) (moves, 0, print Moving w) = (wr, Inr (moves', n)) \<and>
           move_files moves' wr = (wm, None) \<and>
           append_moves_to_json moves' (join out ''info.json'') False wm = (w3, Inr r) \<and>
           store w1 = store w3 \<and> cwd w1 = cwd w3 \<and> set (stdout w3) \<subseteq> set (stdout w1)"
proof -
  define j where "j = join out ''info.json''"
  obtain wr rr where c: "check_update_old_info moves j False (print Moving w) = (wr, rr)"
    by (cases "check_update_old_info moves j False (print Moving w)")
  obtain res where rr: "rr = Inr res"
    using first plan c by (cases rr) (auto simp: do_move_files_def Let_def j_def)
  obtain moves' n where res: "res = (moves', n)" by (cases res)
  obtain old_info :: "path dict" where
    loop: "check_loop False (keys old_info) (moves, 0, print Moving w) = (wr, Inr (moves', n))"
    using c rr res by (auto simp: check_update_old_info_def split: sum.splits)
  obtain wm rm where m: "move_files moves' wr = (wm, rm)" by (cases "move_files moves' wr")
  have rm: "rm = None"
    using first plan c rr res m by (cases rm) (auto simp: do_move_files_def Let_def j_def)
  obtain w3 r3 where a: "append_moves_to_json moves' j False wm = (w3, r3)"
    by (cases "append_moves_to_json moves' j False wm")
  obtain r where r3: "r3 = Inr r"
    using first plan c rr res m rm a by (cases r3) (auto simp: do_move_files_def Let_def j_def)
  have w1: "w1 = (if n > 0 then print (Deleted n) w3 else w3)"
    using first plan c rr res m rm a r3 by (auto simp: do_move_files_def Let_def j_def)
  have "store w1 = store w3 \<and> cwd w1 = cwd w3 \<and> set (stdout w3) \<subseteq> set (stdout w1)"
    unfolding w1 by auto
  then show ?thesis
    using loop m rm a r3 unfolding j_def by blast
qed




subsection \<open>The discovery\<close>









subsection \<open>The second run\<close>

lemma do_move_files_cwd:
  assumes first: "do_move_files pictures out w = (w1, None)"
      and plan: "create_moves pictures out = Inr moves"
  shows "cwd w1 = cwd w"
proof -
  from do_move_files_phases [OF first plan]
  obtain old_info :: "path dict" and wr moves' n wm w3 r where
    loop: "check_loop False (keys old_info) (moves, 0, print Moving w) = (wr, Inr (moves', n))" and
    m: "move_files moves' wr = (wm, None)" and
    a: "append_moves_to_json moves' (join out ''info.json'') False wm = (w3, Inr r)" and
    c13: "cwd w1 = cwd w3"
    by blast
  show ?thesis
    using c13 append_moves_to_json_written(4) [OF a] move_files_cwd [OF m] check_loop_cwd [OF loop]
    by simp
qed





text \<open>
  Without the condition on the output directory the second run is not harmless. At
  \<open>disk_pictures\<close> the source directory is \<^verbatim>\<open>/x/pictures\<close>, for which the output
  directory that \<^verbatim>\<open>main\<close> takes by default is the source directory itself. The first run
  moves the picture to its target, below the source directory. The second run discovers
  it there, plans the same target, finds that name in the ledger, compares the file with
  itself and removes it: the run ends normally and the picture is nowhere.
\<close>

theorem second_apply_inside_source_removes_file:
  "default_out ''/x/pictures'' = ''/x/pictures'' \<and>
   snd (main_moves True always_jan2 always_jan2 ''/x/pictures'' ''/x/pictures'' disk_pictures) = None \<and>
   map fst (store (fst
     (main_moves True always_jan2 always_jan2 ''/x/pictures'' ''/x/pictures'' disk_pictures))) =
     [''/x/pictures'', ''/x/pictures/2024'', pictures_name, ''/x/pictures/info.json''] \<and>
   files (fst (main_moves True always_jan2 always_jan2 ''/x/pictures'' ''/x/pictures'' disk_pictures))
     pictures_name = Some (File (Bytes [1])) \<and>
   snd (find_pictures always_jan2 always_jan2 ''/x/pictures'' (fst
     (main_moves True always_jan2 always_jan2 ''/x/pictures'' ''/x/pictures'' disk_pictures))) =
     Inr ([(jan2, pictures_name)], [''/x/pictures/info.json''], []) \<and>
   snd (main_moves True always_jan2 always_jan2 ''/x/pictures'' ''/x/pictures'' (fst
     (main_moves True always_jan2 always_jan2 ''/x/pictures'' ''/x/pictures'' disk_pictures))) = None \<and>
   map fst (store (fst (main_moves True always_jan2 always_jan2 ''/x/pictures'' ''/x/pictures'' (fst
     (main_moves True always_jan2 always_jan2 ''/x/pictures'' ''/x/pictures'' disk_pictures))))) =
     [''/x/pictures'', ''/x/pictures/2024'', ''/x/pictures/info.json'']"
  by code_simp

end
